theory Spec2Isabelle
  imports Main "HOL-Library.Word" "HOL-Library.Multiset"
begin

section \<open>Part count: \<open>choose_threads\<close>\<close>

text \<open>
  Python integers are unbounded, so sizes are \<open>int\<close>; Python's \<open>//\<close> on integers is
  floor division, which is \<open>div\<close> on \<open>int\<close>.

  \<^verbatim>\<open>
  def choose_threads(file_size):
      if file_size < 50 * 1024 * 1024:   # < 50MB
          return 1
      elif file_size < 500 * 1024 * 1024:  # 50MB-500MB
          return min(4, max(2, file_size // (50 * 1024 * 1024)))
      else:  # > 500MB
          return min(16, max(4, file_size // (100 * 1024 * 1024)))
  \<close>
\<close>

definition choose_threads :: "int \<Rightarrow> int" where
  "choose_threads file_size =
     (if file_size < 50 * 1024 * 1024 then 1
      else if file_size < 500 * 1024 * 1024
        then min 4 (max 2 (file_size div (50 * 1024 * 1024)))
      else min 16 (max 4 (file_size div (100 * 1024 * 1024))))"

text \<open>The spec's vocabulary for the tiers: binary megabytes and \<open>clamp(x, lo, hi)\<close>.\<close>

definition MiB :: int where
  "MiB = 1024 * 1024"

definition clamp :: "int \<Rightarrow> int \<Rightarrow> int \<Rightarrow> int" where
  "clamp x lo hi = max lo (min hi x)"

section \<open>Retry backoff\<close>

text \<open>
  The wait computed in the \<open>except\<close> branch of the worker (line 69):
  \<^verbatim>\<open>wait_time = min(60, 2 ** min(downloaded // 1_000_000, 6))  # up to 64s\<close>
  \<open>downloaded\<close> is a byte count and never negative, so the exponent is a natural number.
\<close>

definition wait_time :: "int \<Rightarrow> int" where
  "wait_time downloaded = min 60 (2 ^ nat (min (downloaded div 1000000) 6))"

section \<open>The world a download runs in\<close>

text \<open>
  Files are byte strings under their path. Besides the files, the state holds the shared
  counter \<open>progress_state[0]\<close>, the value last published to the progress bar
  (\<open>progress.update(task_id, completed=...)\<close>), and two logs that make the effects on the
  network and the clock observable: every \<open>Range\<close> header sent, as
  (part number, first byte, last byte), and every \<open>time.sleep\<close> argument. Console output
  is not modelled.
\<close>

type_synonym byte = "8 word"

record world =
  files :: "string \<rightharpoonup> byte list"
  progress_state :: int
  completed :: int
  requests :: "(nat \<times> int \<times> int) list"
  sleeps :: "int list"

text \<open>
  \<open>os.path.getsize(p) if os.path.exists(p) else 0\<close>, the expression that gives a worker its
  resume offset (line 48).
\<close>

definition size_on_disk :: "world \<Rightarrow> string \<Rightarrow> int" where
  "size_on_disk w path = (case files w path of Some old \<Rightarrow> int (length old) | None \<Rightarrow> 0)"

text \<open>
  The block under \<open>with progress_lock:\<close> (lines 64 to 66): the lock makes the two
  statements one atomic step on the shared counter.
  \<^verbatim>\<open>
  progress_state[0] += len(chunk)
  update_fn(progress_state[0])
  \<close>
\<close>

definition advance :: "int \<Rightarrow> world \<Rightarrow> world" where
  "advance n w =
     (let new_value = progress_state w + n
      in w\<lparr>progress_state := new_value, completed := new_value\<rparr>)"

subsection \<open>Part file names\<close>

text \<open>\<open>f"{filename}.part{part_num}"\<close>: the decimal digits of the part number are appended.\<close>

definition digit_char :: "nat \<Rightarrow> char" where
  "digit_char d = char_of (48 + d)"

fun str_nat :: "nat \<Rightarrow> string" where
  "str_nat n = (if n < 10 then [digit_char n] else str_nat (n div 10) @ [digit_char (n mod 10)])"

declare str_nat.simps [simp del]

definition part_file :: "string \<Rightarrow> nat \<Rightarrow> string" where
  "part_file filename part_num = filename @ ''.part'' @ str_nat part_num"

section \<open>The part worker: \<open>download_range\<close>\<close>

text \<open>
  What one \<open>requests.get\<close> with a \<open>Range\<close> header can do to the worker: raise before any
  response arrives (\<open>ConnectError\<close>: connection refused, timeout), answer with a status
  that \<open>raise_for_status\<close> rejects (\<open>HTTPError\<close>), or stream chunks. A stream either ends
  normally (\<open>True\<close>) or breaks with an exception after the chunks listed (\<open>False\<close>).
  The server is a function of the part number, the number of the attempt and the byte
  range asked for; it is free to ignore the range.
\<close>

datatype attempt = ConnectError | HTTPError | Stream "byte list list" bool

type_synonym server = "nat \<Rightarrow> nat \<Rightarrow> int \<times> int \<Rightarrow> attempt"

text \<open>\<open>open(part_file, "ab")\<close> creates the file when it is absent and keeps its bytes otherwise.\<close>

definition open_append :: "string \<Rightarrow> world \<Rightarrow> world" where
  "open_append path w =
     (case files w path of
        None \<Rightarrow> w\<lparr>files := (files w)(path \<mapsto> [])\<rparr>
      | Some old \<Rightarrow> w)"

text \<open>\<open>f.write(chunk)\<close> on a file opened for appending.\<close>

definition write_append :: "string \<Rightarrow> byte list \<Rightarrow> world \<Rightarrow> world" where
  "write_append path chunk w =
     (case files w path of
        None \<Rightarrow> w\<lparr>files := (files w)(path \<mapsto> chunk)\<rparr>
      | Some old \<Rightarrow> w\<lparr>files := (files w)(path \<mapsto> old @ chunk)\<rparr>)"

text \<open>
  The loop over \<open>r.iter_content(8192)\<close> (lines 59 to 66). The chunks may have any length;
  an empty chunk is skipped.
\<close>

fun write_chunks :: "string \<Rightarrow> byte list list \<Rightarrow> int \<Rightarrow> world \<Rightarrow> int \<times> world" where
  "write_chunks path [] downloaded w = (downloaded, w)"
| "write_chunks path (chunk # rest) downloaded w =
     (if chunk = [] then write_chunks path rest downloaded w
      else write_chunks path rest (downloaded + int (length chunk))
             (advance (int (length chunk)) (write_append path chunk w)))"

definition send_request :: "nat \<Rightarrow> int \<Rightarrow> int \<Rightarrow> world \<Rightarrow> world" where
  "send_request part_num first_byte last_byte w =
     w\<lparr>requests := requests w @ [(part_num, first_byte, last_byte)]\<rparr>"

definition sleep_retry :: "int \<Rightarrow> world \<Rightarrow> world" where
  "sleep_retry downloaded w = w\<lparr>sleeps := sleeps w @ [wait_time downloaded]\<rparr>"

text \<open>
  The \<open>while\<close> loop of the worker retries without bound, so the model takes fuel: the
  number of requests the worker may still send. \<open>Returned\<close> is the worker's return with
  the final value of \<open>downloaded\<close>; \<open>Retrying\<close> says that the fuel ran out with the loop
  about to send another request, and gives the state reached so far.

  \<^verbatim>\<open>
  while downloaded < (end - start + 1):
      headers = {"Range": f"bytes={start + downloaded}-{end}", ...}
      try:
          with requests.get(url, headers=headers, stream=True, timeout=10) as r:
              r.raise_for_status()
              with open(part_file, "ab") as f:
                  for chunk in r.iter_content(8192):
                      ...
          break
      except Exception as e:
          wait_time = min(60, 2 ** min(downloaded // 1_000_000, 6))  # up to 64s
          time.sleep(wait_time)
  \<close>
\<close>

datatype run = Returned int world | Retrying int world

fun download_loop ::
  "server \<Rightarrow> string \<Rightarrow> int \<Rightarrow> int \<Rightarrow> nat \<Rightarrow> nat \<Rightarrow> nat \<Rightarrow> int \<Rightarrow> world \<Rightarrow> run" where
  "download_loop srv filename start end part_num 0 k downloaded w =
     (if downloaded < end - start + 1 then Retrying downloaded w else Returned downloaded w)"
| "download_loop srv filename start end part_num (Suc fuel) k downloaded w =
     (if downloaded < end - start + 1 then
        (let w1 = send_request part_num (start + downloaded) end w in
         case srv part_num k (start + downloaded, end) of
           ConnectError \<Rightarrow>
             download_loop srv filename start end part_num fuel (Suc k) downloaded
               (sleep_retry downloaded w1)
         | HTTPError \<Rightarrow>
             download_loop srv filename start end part_num fuel (Suc k) downloaded
               (sleep_retry downloaded w1)
         | Stream chunks finished \<Rightarrow>
             (case write_chunks (part_file filename part_num) chunks downloaded
                     (open_append (part_file filename part_num) w1) of
                (downloaded', w2) \<Rightarrow>
                  if finished then Returned downloaded' w2
                  else download_loop srv filename start end part_num fuel (Suc k) downloaded'
                         (sleep_retry downloaded' w2)))
      else Returned downloaded w)"

definition download_range ::
  "server \<Rightarrow> string \<Rightarrow> int \<Rightarrow> int \<Rightarrow> nat \<Rightarrow> nat \<Rightarrow> world \<Rightarrow> run" where
  "download_range srv filename start end part_num fuel w =
     download_loop srv filename start end part_num fuel 0
       (size_on_disk w (part_file filename part_num)) w"

definition world_of :: "run \<Rightarrow> world" where
  "world_of r = (case r of Returned downloaded w \<Rightarrow> w | Retrying downloaded w \<Rightarrow> w)"

text \<open>The requests a run has added to the log of the world it started in.\<close>

definition new_requests :: "world \<Rightarrow> run \<Rightarrow> (nat \<times> int \<times> int) list" where
  "new_requests w r = drop (length (requests w)) (requests (world_of r))"

section \<open>The metadata step\<close>

text \<open>
  The exceptions the coordinator can raise. The two \<open>raise Exception(...)\<close> of the source
  are told apart by their message: \<open>NoContentLength\<close> ("Server does not provide
  Content-Length") and \<open>NonDownloadable\<close> ("URL points to non-downloadable content").
  \<open>RequestException\<close> stands for whatever \<open>requests.head\<close> itself raises.
\<close>

datatype py_error =
    RequestException | KeyError | NoContentLength | NonDownloadable | ValueError
  | ZeroDivisionError | OverflowError | FileNotFoundError

text \<open>
  The response to the \<open>HEAD\<close> request. \<open>response.headers\<close> is a case-insensitive
  dictionary: the model keeps it as a map under the lower-cased header name, and every
  lookup lower-cases the name it asks for.
\<close>

record response =
  status_code :: int
  headers :: "string \<rightharpoonup> string"

definition lower_char :: "char \<Rightarrow> char" where
  "lower_char c =
     (let n = (of_char c :: nat) in if 65 \<le> n \<and> n \<le> 90 then char_of (n + 32) else c)"

definition lower :: "string \<Rightarrow> string" where
  "lower s = map lower_char s"

definition header_get :: "response \<Rightarrow> string \<Rightarrow> string option" where
  "header_get r name = headers r (lower name)"

text \<open>Python's \<open>needle in haystack\<close> on strings.\<close>

fun str_in :: "string \<Rightarrow> string \<Rightarrow> bool" where
  "str_in needle [] = (needle = [])"
| "str_in needle (c # cs) = (take (length needle) (c # cs) = needle \<or> str_in needle cs)"

text \<open>
  \<open>int(s)\<close> on a string whose characters are code points below 256, as the header values
  of \<open>requests\<close> are: surrounding whitespace is dropped (tab to carriage return, space,
  and the two Latin-1 spaces \<open>0x85\<close> and \<open>0xA0\<close>), one sign is accepted, and the digits
  may be grouped by single underscores; anything else raises \<open>ValueError\<close>, and so do
  more than 4300 digits (the default limit of CPython on the conversion).
\<close>

definition is_space :: "char \<Rightarrow> bool" where
  "is_space c =
     (let n = (of_char c :: nat) in (9 \<le> n \<and> n \<le> 13) \<or> n = 32 \<or> n = 133 \<or> n = 160)"

definition strip :: "string \<Rightarrow> string" where
  "strip s = rev (dropWhile is_space (rev (dropWhile is_space s)))"

definition is_digit :: "char \<Rightarrow> bool" where
  "is_digit c = (let n = (of_char c :: nat) in 48 \<le> n \<and> n \<le> 57)"

definition digit_val :: "char \<Rightarrow> nat" where
  "digit_val c = of_char c - 48"

fun parse_digits :: "string \<Rightarrow> nat \<Rightarrow> nat option" where
  "parse_digits [] acc = Some acc"
| "parse_digits [c] acc = (if is_digit c then Some (10 * acc + digit_val c) else None)"
| "parse_digits (c # d # ds) acc =
     (if is_digit c then parse_digits (d # ds) (10 * acc + digit_val c)
      else if c = CHR ''_'' \<and> is_digit d then parse_digits ds (10 * acc + digit_val d)
      else None)"

definition py_int :: "string \<Rightarrow> py_error + int" where
  "py_int s =
     (let t = strip s;
          negative = (case t of [] \<Rightarrow> False | c # _ \<Rightarrow> c = CHR ''-'');
          body = (case t of [] \<Rightarrow> [] | c # r \<Rightarrow> if c = CHR ''-'' \<or> c = CHR ''+'' then r else t)
      in case body of
           [] \<Rightarrow> Inl ValueError
         | c # r \<Rightarrow>
             if 4300 < length (filter is_digit body) then Inl ValueError
             else if is_digit c then
               (case parse_digits r (digit_val c) of
                  None \<Rightarrow> Inl ValueError
                | Some n \<Rightarrow> Inr (if negative then - int n else int n))
             else Inl ValueError)"

text \<open>
  Lines 80 to 92 of \<open>download_file_rich\<close>: everything between the \<open>HEAD\<close> response and
  the size the rest of the function works with. On a status outside 200..299 the source
  prints \<open>response.headers['Location']\<close>, a subscript that raises \<open>KeyError\<close> when the
  header is absent.

  \<^verbatim>\<open>
  content_type = response.headers.get("Content-Type", "").lower()
  if (response.status_code < 200 or response.status_code > 299):
      print(response.status_code)
      print(response.headers['Location'], '\n')
  if "Content-Length" not in response.headers:
      ...
      print("Redirect Location:", response.headers.get("Location"))
      raise Exception("Server does not provide Content-Length (can't download).")
  if "text/html" in content_type or "application/json" in content_type:
      raise Exception(f"URL points to non-downloadable content (Content-Type: {content_type})")
  file_size = int(response.headers["Content-Length"])
  \<close>
\<close>

definition metadata :: "response \<Rightarrow> py_error + int" where
  "metadata r =
     (let content_type = lower (case header_get r ''Content-Type'' of None \<Rightarrow> [] | Some v \<Rightarrow> v) in
      if (status_code r < 200 \<or> status_code r > 299) \<and> header_get r ''Location'' = None
        then Inl KeyError
      else case header_get r ''Content-Length'' of
        None \<Rightarrow> Inl NoContentLength
      | Some len \<Rightarrow>
          if str_in ''text/html'' content_type \<or> str_in ''application/json'' content_type
            then Inl NonDownloadable
          else py_int len)"

section \<open>Planning the byte ranges\<close>

text \<open>
  \<open>part_size = ceil(file_size / num_threads)\<close> divides two integers with \<open>/\<close>, which in
  Python is true division: the result is the double nearest to the exact quotient
  (ties go to the even mantissa), or \<open>OverflowError\<close> when that is beyond the doubles;
  \<open>math.ceil\<close> then gives back an integer. A double is modelled by its value
  \<open>m * 2 ^ x\<close>, as the pair \<open>(m, x)\<close>: 53 bits of mantissa, and the exponent of the last
  mantissa bit not below \<open>-1074\<close>.
\<close>

function bit_length :: "int \<Rightarrow> nat" where
  "bit_length n = (if n = 0 then 0 else Suc (bit_length (\<bar>n\<bar> div 2)))"
  by pat_completeness auto
termination
  by (relation "measure (\<lambda>n. nat \<bar>n\<bar>)") auto

declare bit_length.simps [simp del]

text \<open>The integer nearest to \<open>n / d\<close> for a positive \<open>d\<close>, ties to the even one.\<close>

definition round_half_even :: "int \<Rightarrow> int \<Rightarrow> int" where
  "round_half_even n d =
     (let q = n div d; r = n mod d
      in if 2 * r < d then q else if d < 2 * r then q + 1 else if even q then q else q + 1)"

text \<open>For positive \<open>a\<close> and \<open>b\<close>, the \<open>e\<close> with \<open>2 ^ e \<le> a / b < 2 ^ (e + 1)\<close>.\<close>

definition float_exponent :: "int \<Rightarrow> int \<Rightarrow> int" where
  "float_exponent a b =
     (let d = int (bit_length a) - int (bit_length b)
      in if a * 2 ^ nat (- d) < b * 2 ^ nat d then d - 1 else d)"

text \<open>The doubles end below \<open>2 ^ 1024\<close>: a quotient that rounds to it or beyond overflows.\<close>

definition overflow_bound :: int where
  "overflow_bound = 2 ^ 1024"

definition true_divide :: "int \<Rightarrow> int \<Rightarrow> py_error + int \<times> int" where
  "true_divide a b =
     (if b = 0 then Inl ZeroDivisionError
      else if a = 0 then Inr (0, 0)
      else
        (let x = max (float_exponent \<bar>a\<bar> \<bar>b\<bar> - 52) (- 1074);
             m = round_half_even (\<bar>a\<bar> * 2 ^ nat (- x)) (\<bar>b\<bar> * 2 ^ nat x)
         in if overflow_bound \<le> m * 2 ^ nat x then Inl OverflowError
            else Inr (if (a < 0) = (b < 0) then m else - m, x)))"

text \<open>\<open>math.ceil\<close> of a double \<open>(m, x)\<close>.\<close>

definition ceil :: "int \<times> int \<Rightarrow> int" where
  "ceil f = (case f of (m, x) \<Rightarrow> if 0 \<le> x then m * 2 ^ nat x else - ((- m) div 2 ^ nat (- x)))"

text \<open>
  The part size as the spec words it, \<open>ceil(size / partCount)\<close> on the exact quotient:
  the least integer not below \<open>a / b\<close>.
\<close>

definition ceil_div :: "int \<Rightarrow> int \<Rightarrow> int" where
  "ceil_div a b = - ((- a) div b)"

text \<open>
  Lines 98 to 100 of \<open>download_file_rich\<close>:
  \<^verbatim>\<open>
  num_threads = choose_threads(file_size)
  part_size = ceil(file_size / num_threads)
  ranges = [(i * part_size, min((i + 1) * part_size - 1, file_size - 1)) for i in range(num_threads)]
  \<close>
\<close>

definition plan_ranges :: "int \<Rightarrow> py_error + (int \<times> int) list" where
  "plan_ranges file_size =
     (let num_threads = choose_threads file_size in
      case true_divide file_size num_threads of
        Inl e \<Rightarrow> Inl e
      | Inr q \<Rightarrow>
          (let part_size = ceil q in
           Inr (map (\<lambda>i. (int i * part_size, min ((int i + 1) * part_size - 1) (file_size - 1)))
                  [0..<nat num_threads])))"

section \<open>Merging the parts\<close>

text \<open>
  Lines 126 to 131 of \<open>download_file_rich\<close>. Opening the destination with \<open>"wb"\<close> creates
  it or cuts it to length 0 before the first part is looked at; each part is appended to
  it and then removed; opening a part that does not exist raises \<open>FileNotFoundError\<close>
  out of the loop.
  \<^verbatim>\<open>
  with open(filename, "wb") as outfile:
      for i in range(num_threads):
          part_file = f"{filename}.part{i}"
          with open(part_file, "rb") as infile:
              outfile.write(infile.read())
          os.remove(part_file)
  \<close>
\<close>

definition os_remove :: "string \<Rightarrow> world \<Rightarrow> world" where
  "os_remove path w = w\<lparr>files := (files w)(path := None)\<rparr>"

fun merge_loop :: "string \<Rightarrow> nat list \<Rightarrow> byte list \<Rightarrow> world \<Rightarrow> (py_error + unit) \<times> world" where
  "merge_loop filename [] written w = (Inr (), w)"
| "merge_loop filename (i # rest) written w =
     (case files w (part_file filename i) of
        None \<Rightarrow> (Inl FileNotFoundError, w)
      | Some part \<Rightarrow>
          merge_loop filename rest (written @ part)
            (os_remove (part_file filename i)
               (w\<lparr>files := (files w)(filename \<mapsto> written @ part)\<rparr>)))"

definition merge_parts :: "string \<Rightarrow> int \<Rightarrow> world \<Rightarrow> (py_error + unit) \<times> world" where
  "merge_parts filename num_threads w =
     merge_loop filename [0..<nat num_threads] [] (w\<lparr>files := (files w)(filename \<mapsto> [])\<rparr>)"

section \<open>The coordinator: \<open>download_file_rich\<close>\<close>

text \<open>
  The workers of one file run on a thread pool. Each of them writes to its own part file
  only and touches the shared counter under the lock, so the model runs them one after
  the other in part order; \<open>None\<close> says that a worker was still retrying when its fuel
  ran out, so that \<open>f.result()\<close> has not returned.
\<close>

fun run_workers ::
  "server \<Rightarrow> string \<Rightarrow> nat \<Rightarrow> (nat \<times> int \<times> int) list \<Rightarrow> world \<Rightarrow> world option" where
  "run_workers srv filename fuel [] w = Some w"
| "run_workers srv filename fuel ((i, start, end) # rest) w =
     (case download_range srv filename start end i fuel w of
        Returned downloaded w' \<Rightarrow> run_workers srv filename fuel rest w'
      | Retrying downloaded w' \<Rightarrow> None)"

datatype task_result = AlreadyDownloaded | DownloadComplete

text \<open>
  The whole function. Its arguments are the server answering the range requests, the
  outcome of \<open>requests.head\<close>, the destination path and the fuel of each worker. The
  result is \<open>None\<close> when the function has not returned, and otherwise how it ended (the
  exception raised, or which \<open>return\<close> was taken) with the world it left.
\<close>

definition download_file_rich ::
  "server \<Rightarrow> py_error + response \<Rightarrow> string \<Rightarrow> nat \<Rightarrow> world
     \<Rightarrow> ((py_error + task_result) \<times> world) option" where
  "download_file_rich srv head_result filename fuel w =
     (case head_result of
        Inl e \<Rightarrow> Some (Inl e, w)
      | Inr response \<Rightarrow>
     (case metadata response of
        Inl e \<Rightarrow> Some (Inl e, w)
      | Inr file_size \<Rightarrow>
     if files w filename \<noteq> None \<and> size_on_disk w filename = file_size
       then Some (Inr AlreadyDownloaded, w)
     else
     (case plan_ranges file_size of
        Inl e \<Rightarrow> Some (Inl e, w)
      | Inr ranges \<Rightarrow>
     (let num_threads = choose_threads file_size;
          already_downloaded =
            sum_list (map (\<lambda>i. size_on_disk w (part_file filename i)) [0..<nat num_threads]);
          w1 = w\<lparr>progress_state := already_downloaded, completed := already_downloaded\<rparr>
      in case run_workers srv filename fuel (enumerate 0 ranges) w1 of
           None \<Rightarrow> None
         | Some w2 \<Rightarrow>
             (case merge_parts filename num_threads (w2\<lparr>completed := file_size\<rparr>) of
                (Inl e, w3) \<Rightarrow> Some (Inl e, w3)
              | (Inr u, w3) \<Rightarrow> Some (Inr DownloadComplete, w3))))))"

section \<open>Concrete inputs\<close>

text \<open>Worlds, servers and responses that the closed theorems below evaluate the code on.\<close>

definition empty_world :: world where
  "empty_world =
     \<lparr>files = Map.empty, progress_state = 0, completed = 0, requests = [], sleeps = []\<rparr>"

text \<open>A server that always streams exactly the bytes it was asked for, in one chunk.\<close>

definition exact_server :: server where
  "exact_server part_num k r = Stream [replicate (nat (snd r - fst r + 1)) 0] True"

text \<open>A server whose every answer is a complete response of three bytes.\<close>

definition short_server :: server where
  "short_server part_num k r = Stream [[1, 2, 3]] True"

text \<open>
  A server that breaks the first stream after at most two bytes, rejects the second
  request and then serves what is asked.
\<close>

definition flaky_server :: server where
  "flaky_server part_num k r =
     (if k = 0 then Stream [take 2 (replicate (nat (snd r - fst r + 1)) 1)] False
      else if k = 1 then HTTPError
      else Stream [replicate (nat (snd r - fst r + 1)) 0] True)"

text \<open>
  A \<open>HEAD\<close> response with status 404 that reports a size and a binary content type and
  has no \<open>Location\<close> header, and the same response with status 200.
\<close>

definition not_found_response :: response where
  "not_found_response =
     \<lparr>status_code = 404,
      headers = [''content-length'' \<mapsto> ''100'', ''content-type'' \<mapsto> ''application/octet-stream'']\<rparr>"

definition ok_response :: response where
  "ok_response = not_found_response\<lparr>status_code := 200\<rparr>"

text \<open>
  A world in which the destination holds an older byte, part 0 of it is complete and
  part 1 is missing.
\<close>

definition interrupted_world :: world where
  "interrupted_world = empty_world\<lparr>files := [''f'' \<mapsto> [9], ''f.part0'' \<mapsto> [1, 2]]\<rparr>"

text \<open>A server whose every answer is a complete response with an empty body.\<close>

definition empty_server :: server where
  "empty_server part_num k r = Stream [] True"

text \<open>A world in which part 0 of \<open>f\<close> is on disk with ten bytes.\<close>

definition complete_part_world :: world where
  "complete_part_world = empty_world\<lparr>files := [''f.part0'' \<mapsto> replicate 10 7]\<rparr>"

section \<open>Servers that honour the range\<close>

text \<open>
  A server honours the range when a stream never holds more bytes than the non-empty
  range asked for, and holds all of them when it ends without an error.
\<close>

definition honours_range :: "server \<Rightarrow> bool" where
  "honours_range srv =
     (\<forall>part_num k first_byte last_byte.
        first_byte \<le> last_byte \<longrightarrow>
        (case srv part_num k (first_byte, last_byte) of
          Stream chunks finished \<Rightarrow>
            int (length (concat chunks)) \<le> last_byte - first_byte + 1
            \<and> (finished \<longrightarrow> int (length (concat chunks)) = last_byte - first_byte + 1)
        | _ \<Rightarrow> True))"

section \<open>The part count is tiered and monotone\<close>

lemma tier2_bounds: "2 \<le> min 4 (max 2 (x::int)) \<and> min 4 (max 2 x) \<le> 4"
  by simp

lemma tier3_bounds: "4 \<le> min 16 (max 4 (x::int)) \<and> min 16 (max 4 x) \<le> 16"
  by simp

lemma tier2_mono: "(x::int) \<le> y \<Longrightarrow> min 4 (max 2 x) \<le> min 4 (max 2 y)"
  by (simp add: min_def max_def)

lemma tier3_mono: "(x::int) \<le> y \<Longrightarrow> min 16 (max 4 x) \<le> min 16 (max 4 y)"
  by (simp add: min_def max_def)

lemma choose_threads_cases:
  obtains (small) "s < 52428800" "choose_threads s = 1"
  | (medium) "52428800 \<le> s" "s < 524288000"
      "choose_threads s = min 4 (max 2 (s div 52428800))"
  | (large) "524288000 \<le> s" "choose_threads s = min 16 (max 4 (s div 104857600))"
proof (cases "s < 52428800")
  case True
  then show ?thesis using small by (simp add: choose_threads_def)
next
  case False
  show ?thesis
  proof (cases "s < 524288000")
    case True
    with False show ?thesis using medium by (simp add: choose_threads_def)
  next
    case False
    then have "\<not> s < 52428800" by simp
    with False show ?thesis using large by (simp add: choose_threads_def)
  qed
qed

lemma tier2_range: "1 \<le> min 4 (max 2 (x::int)) \<and> min 4 (max 2 x) \<le> 16"
  by (simp add: min_def max_def)

lemma tier3_range: "1 \<le> min 16 (max 4 (x::int)) \<and> min 16 (max 4 x) \<le> 16"
  by (simp add: min_def max_def)

lemma tier2_le_tier3: "min 4 (max 2 (x::int)) \<le> min 16 (max 4 (y::int))"
  by (simp add: min_def max_def)

lemma choose_threads_range: "1 \<le> choose_threads s \<and> choose_threads s \<le> 16"
proof (cases s rule: choose_threads_cases)
  case small
  then show ?thesis by simp
next
  case medium
  show ?thesis unfolding medium(3) by (rule tier2_range)
next
  case large
  show ?thesis unfolding large(2) by (rule tier3_range)
qed

lemma choose_threads_mono: "a \<le> b \<Longrightarrow> choose_threads a \<le> choose_threads b"
proof -
  assume ab: "a \<le> b"
  have d50: "a div 52428800 \<le> b div 52428800" using ab by (rule zdiv_mono1) simp
  have d100: "a div 104857600 \<le> b div 104857600" using ab by (rule zdiv_mono1) simp
  show ?thesis
  proof (cases a rule: choose_threads_cases)
    case small
    then show ?thesis using choose_threads_range [of b] by simp
  next
    case ma: medium
    show ?thesis
    proof (cases b rule: choose_threads_cases)
      case small
      then show ?thesis using ab ma(1) by simp
    next
      case medium
      show ?thesis unfolding ma(3) medium(3) by (rule tier2_mono [OF d50])
    next
      case large
      show ?thesis unfolding ma(3) large(2) by (rule tier2_le_tier3)
    qed
  next
    case la: large
    show ?thesis
    proof (cases b rule: choose_threads_cases)
      case small
      then show ?thesis using ab la(1) by simp
    next
      case medium
      then show ?thesis using ab la(1) by simp
    next
      case large
      show ?thesis unfolding la(2) large(2) by (rule tier3_mono [OF d100])
    qed
  qed
qed

lemma clamp_2_4: "clamp x 2 4 = min 4 (max 2 x)"
  by (simp add: clamp_def min_def max_def)

lemma clamp_4_16: "clamp x 4 16 = min 16 (max 4 x)"
  by (simp add: clamp_def min_def max_def)

text \<open>
  C4. The part count follows the documented tiers (1 part below 50 MiB; the quotient by
  50 MiB clamped to 2..4 from 50 MiB up to 500 MiB; the quotient by 100 MiB clamped to 4..16
  from 500 MiB on), it never decreases when the size grows, also across the tier
  boundaries, and the sample points hold: 10 MiB gives 1, 100 MiB a count in 2..4, 1 GiB a
  count in 4..10, and 2 GiB gives 16.
\<close>

theorem choose_threads_tiers:
  "(s < 50 * MiB \<longrightarrow> choose_threads s = 1)
   \<and> (50 * MiB \<le> s \<and> s < 500 * MiB \<longrightarrow> choose_threads s = clamp (s div (50 * MiB)) 2 4)
   \<and> (500 * MiB \<le> s \<longrightarrow> choose_threads s = clamp (s div (100 * MiB)) 4 16)
   \<and> (a \<le> b \<longrightarrow> choose_threads a \<le> choose_threads b)
   \<and> choose_threads (10 * MiB) = 1
   \<and> 2 \<le> choose_threads (100 * MiB) \<and> choose_threads (100 * MiB) \<le> 4
   \<and> 4 \<le> choose_threads (1024 * MiB) \<and> choose_threads (1024 * MiB) \<le> 10
   \<and> choose_threads (2048 * MiB) = 16"
proof -
  have m: "50 * MiB = 52428800" "500 * MiB = 524288000" "100 * MiB = 104857600"
    by (simp_all add: MiB_def)
  have t1: "s < 50 * MiB \<longrightarrow> choose_threads s = 1"
    unfolding m by (cases s rule: choose_threads_cases) simp_all
  have t2: "50 * MiB \<le> s \<and> s < 500 * MiB \<longrightarrow> choose_threads s = clamp (s div (50 * MiB)) 2 4"
    unfolding m clamp_2_4 by (cases s rule: choose_threads_cases) simp_all
  have t3: "500 * MiB \<le> s \<longrightarrow> choose_threads s = clamp (s div (100 * MiB)) 4 16"
    unfolding m clamp_4_16 by (cases s rule: choose_threads_cases) simp_all
  have s1: "choose_threads (10 * MiB) = 1"
    by (simp add: choose_threads_def MiB_def)
  have s2: "2 \<le> choose_threads (100 * MiB) \<and> choose_threads (100 * MiB) \<le> 4"
    by (simp add: choose_threads_def MiB_def)
  have s3: "4 \<le> choose_threads (1024 * MiB) \<and> choose_threads (1024 * MiB) \<le> 10"
    by (simp add: choose_threads_def MiB_def)
  have s4: "choose_threads (2048 * MiB) = 16"
    by (simp add: choose_threads_def MiB_def)
  show ?thesis
    using t1 t2 t3 s1 s2 s3 s4 choose_threads_mono [of a b] by blast
qed

theorem choose_threads_tiers_witness:
  "choose_threads (49 * MiB) = 1
   \<and> choose_threads (170 * MiB) = clamp ((170 * MiB) div (50 * MiB)) 2 4
   \<and> choose_threads (700 * MiB) = clamp ((700 * MiB) div (100 * MiB)) 4 16
   \<and> choose_threads (499 * MiB) \<le> choose_threads (500 * MiB)
   \<and> clamp ((170 * MiB) div (50 * MiB)) 2 4 = 3
   \<and> clamp ((700 * MiB) div (100 * MiB)) 4 16 = 7"
proof -
  have h1: "49 * MiB < 50 * MiB" by (simp add: MiB_def)
  have h2: "50 * MiB \<le> 170 * MiB \<and> 170 * MiB < 500 * MiB" by (simp add: MiB_def)
  have h3: "500 * MiB \<le> 700 * MiB" by (simp add: MiB_def)
  have h4: "499 * MiB \<le> 500 * MiB" by (simp add: MiB_def)
  have v: "clamp ((170 * MiB) div (50 * MiB)) 2 4 = 3
      \<and> clamp ((700 * MiB) div (100 * MiB)) 4 16 = 7"
    by (simp add: MiB_def clamp_def)
  show ?thesis
    using h1 h2 h3 h4 v
      choose_threads_tiers [of "49 * MiB" "499 * MiB" "500 * MiB"]
      choose_threads_tiers [of "170 * MiB" "499 * MiB" "500 * MiB"]
      choose_threads_tiers [of "700 * MiB" "499 * MiB" "500 * MiB"]
    by blast
qed

section \<open>Backoff, metadata, progress and the skip check\<close>

text \<open>
  C3. The claim puts the cap of the backoff at 64 seconds once 6 MB are in the part file,
  as the comment on the line does ("up to 64s"). The code takes the minimum with 60:
  at 6,000,000 bytes the wait is 60 seconds where the claimed formula gives 64, and
  below 6 MB the two agree.
\<close>

theorem wait_time_cap_is_60:
  "wait_time 6000000 = 60
   \<and> min 64 (2 ^ nat (min (6000000 div 1000000) 6)) = (64::int)
   \<and> wait_time 5999999 = min 64 (2 ^ nat (min (5999999 div 1000000) 6))"
  by (simp add: wait_time_def)

lemma wait_time_le_60: "wait_time downloaded \<le> 60"
  by (simp add: wait_time_def)

text \<open>
  C8. A response with status 404 that reports a size and a binary content type, but has
  no \<open>Location\<close> header, fails the metadata step with \<open>KeyError\<close>, although its
  \<open>Content-Length\<close> is present and its content type is neither HTML nor JSON; the same
  headers under status 200 pass. So the status code alone decides here.
\<close>

theorem metadata_status_alone_fails:
  "metadata not_found_response = Inl KeyError
   \<and> header_get not_found_response ''Content-Length'' = Some ''100''
   \<and> header_get not_found_response ''Content-Type'' = Some ''application/octet-stream''
   \<and> metadata ok_response = Inr 100"
  by code_simp

text \<open>Every \<open>advance\<close> adds its delta to the counter, whatever the starting total.\<close>

lemma fold_advance_progress:
  "progress_state (fold advance ds w) = progress_state w + sum_list ds"
  by (induction ds arbitrary: w) (simp_all add: advance_def Let_def)

text \<open>
  C9. From any initial total, the deltas of a finite sequence of \<open>advance\<close> calls, applied
  in any order (any list with the same multiset of deltas), leave the counter at the
  initial total plus the sum of the deltas; an advance by a positive delta strictly
  increases the total; and the value published to the progress bar is the counter.
\<close>

theorem advance_no_lost_update:
  "(mset ds' = mset ds \<longrightarrow>
      progress_state (fold advance ds' w) = progress_state w + sum_list ds)
   \<and> (0 < d \<longrightarrow> progress_state w < progress_state (advance d w))
   \<and> completed (advance d w) = progress_state (advance d w)"
proof -
  have "sum_list ds' = sum_list ds" if "mset ds' = mset ds"
    using that by (metis sum_mset_sum_list)
  then show ?thesis
    by (simp add: fold_advance_progress advance_def Let_def)
qed

theorem advance_no_lost_update_witness:
  "progress_state (fold advance [3, 8192, 5] (empty_world\<lparr>progress_state := 100\<rparr>)) = 100 + sum_list [5, 3, 8192]
   \<and> progress_state (empty_world\<lparr>progress_state := 100\<rparr>)
       < progress_state (advance 7 (empty_world\<lparr>progress_state := 100\<rparr>))
   \<and> progress_state (fold advance [3, 8192, 5] (empty_world\<lparr>progress_state := 100\<rparr>)) = 8300"
proof -
  have h: "mset [3, 8192, 5] = mset [5, 3, 8192::int]" by simp
  have p: "(0::int) < 7" by simp
  show ?thesis
    using h p advance_no_lost_update [of "[3, 8192, 5]" "[5, 3, 8192]"
        "empty_world\<lparr>progress_state := 100\<rparr>" 7]
    by (simp add: empty_world_def)
qed

text \<open>
  C7. When the metadata step has passed with a size and the destination exists with
  exactly that many bytes, the coordinator returns at once through the
  already-downloaded \<open>return\<close>, for any server and any fuel, and the world is the one
  it started in: no range request was logged, no file changed, no progress published.
\<close>

theorem skip_when_already_complete:
  assumes "head_result = Inr response"
    and "metadata response = Inr file_size"
    and "files w filename = Some old"
    and "int (length old) = file_size"
  shows "download_file_rich srv head_result filename fuel w = Some (Inr AlreadyDownloaded, w)"
  using assms by (simp add: download_file_rich_def size_on_disk_def)

theorem skip_when_already_complete_witness:
  "download_file_rich short_server (Inr ok_response) ''f'' 0
     (empty_world\<lparr>files := [''f'' \<mapsto> replicate 100 7]\<rparr>)
   = Some (Inr AlreadyDownloaded, empty_world\<lparr>files := [''f'' \<mapsto> replicate 100 7]\<rparr>)
   \<and> requests (empty_world\<lparr>files := [''f'' \<mapsto> replicate 100 7]\<rparr>) = []"
proof -
  have m: "metadata ok_response = Inr 100" by code_simp
  have f: "files (empty_world\<lparr>files := [''f'' \<mapsto> replicate 100 7]\<rparr>) ''f'' = Some (replicate 100 7)"
    by simp
  have l: "int (length (replicate 100 (7::byte))) = 100" by simp
  show ?thesis
    using skip_when_already_complete [OF refl m f l, of short_server 0]
    by (simp add: empty_world_def)
qed

section \<open>Facts about the worker\<close>

lemma advance_frame [simp]:
  "files (advance n w) = files w" "requests (advance n w) = requests w"
  "sleeps (advance n w) = sleeps w"
  by (simp_all add: advance_def Let_def)

lemma write_append_frame [simp]:
  "requests (write_append path chunk w) = requests w"
  "sleeps (write_append path chunk w) = sleeps w"
  "progress_state (write_append path chunk w) = progress_state w"
  by (simp_all add: write_append_def split: option.splits)

lemma write_append_files:
  "files (write_append path chunk w) =
     (files w)(path \<mapsto> (case files w path of None \<Rightarrow> [] | Some old \<Rightarrow> old) @ chunk)"
  by (simp add: write_append_def split: option.splits)

lemma open_append_frame [simp]:
  "requests (open_append path w) = requests w"
  "sleeps (open_append path w) = sleeps w"
  "progress_state (open_append path w) = progress_state w"
  by (simp_all add: open_append_def split: option.splits)

lemma open_append_files:
  "files (open_append path w) =
     (files w)(path \<mapsto> (case files w path of None \<Rightarrow> [] | Some old \<Rightarrow> old))"
  by (auto simp: open_append_def split: option.splits)

lemma send_request_frame [simp]:
  "files (send_request p a b w) = files w"
  "requests (send_request p a b w) = requests w @ [(p, a, b)]"
  "progress_state (send_request p a b w) = progress_state w"
  by (simp_all add: send_request_def)

lemma sleep_retry_frame [simp]:
  "files (sleep_retry d w) = files w"
  "requests (sleep_retry d w) = requests w"
  "progress_state (sleep_retry d w) = progress_state w"
  by (simp_all add: sleep_retry_def)

lemma write_chunks_requests:
  "requests (snd (write_chunks path chunks d w)) = requests w"
  by (induction chunks arbitrary: d w) simp_all

lemma write_chunks_downloaded:
  "fst (write_chunks path chunks d w) = d + int (length (concat chunks))"
  by (induction chunks arbitrary: d w) simp_all

lemma write_chunks_files:
  "files w path = Some old \<Longrightarrow>
   files (snd (write_chunks path chunks d w)) = (files w)(path \<mapsto> old @ concat chunks)"
proof (induction chunks arbitrary: d w old)
  case Nil
  then show ?case by (simp add: fun_upd_idem)
next
  case (Cons chunk chunks)
  show ?case
  proof (cases "chunk = []")
    case True
    then show ?thesis using Cons by simp
  next
    case False
    let ?W = "advance (int (length chunk)) (write_append path chunk w)"
    have W: "files (write_append path chunk w) = (files w)(path \<mapsto> old @ chunk)"
      using Cons.prems by (simp add: write_append_files)
    then have "files ?W path = Some (old @ chunk)" by simp
    then have "files (snd (write_chunks path chunks (d + int (length chunk)) ?W))
        = (files ?W)(path \<mapsto> (old @ chunk) @ concat chunks)"
      by (rule Cons.IH)
    then show ?thesis
      using False by (simp add: W)
  qed
qed

lemma write_chunks_progress:
  "progress_state (snd (write_chunks path chunks d w))
     = progress_state w + int (length (concat chunks))"
  by (induction chunks arbitrary: d w) (simp_all add: advance_def Let_def)

text \<open>The request log of a run: what is new, and where it starts.\<close>

lemma download_loop_requests:
  "\<exists>new. requests (world_of (download_loop srv filename start end part_num fuel k d w))
            = requests w @ new
     \<and> (\<forall>e \<in> set new. fst e = part_num \<and> start + d \<le> fst (snd e) \<and> snd (snd e) = end)
     \<and> (d < end - start + 1 \<and> 0 < fuel \<longrightarrow> new \<noteq> [] \<and> hd new = (part_num, start + d, end))
     \<and> (\<not> d < end - start + 1 \<longrightarrow> new = [])"
proof (induction fuel arbitrary: k d w)
  case 0
  show ?case by (simp add: world_of_def)
next
  case (Suc fuel)
  show ?case
  proof (cases "d < end - start + 1")
    case False
    then show ?thesis by (simp add: world_of_def)
  next
    case True
    let ?w1 = "send_request part_num (start + d) end w"
    have step: "\<exists>new. requests (world_of r) = requests w @ new
        \<and> (\<forall>e \<in> set new. fst e = part_num \<and> start + d \<le> fst (snd e) \<and> snd (snd e) = end)
        \<and> new \<noteq> [] \<and> hd new = (part_num, start + d, end)"
      if r: "\<exists>new. requests (world_of r) = requests w2 @ new
          \<and> (\<forall>e \<in> set new. fst e = part_num \<and> start + d' \<le> fst (snd e) \<and> snd (snd e) = end)"
        and w2: "requests w2 = requests w @ [(part_num, start + d, end)]"
        and d': "d \<le> d'"
      for r w2 d'
    proof -
      from r obtain new where new: "requests (world_of r) = requests w2 @ new"
        "\<forall>e \<in> set new. fst e = part_num \<and> start + d' \<le> fst (snd e) \<and> snd (snd e) = end"
        by blast
      have "requests (world_of r) = requests w @ ((part_num, start + d, end) # new)"
        using new(1) w2 by simp
      moreover have "\<forall>e \<in> set ((part_num, start + d, end) # new).
          fst e = part_num \<and> start + d \<le> fst (snd e) \<and> snd (snd e) = end"
        using new(2) d' by auto
      ultimately show ?thesis by (intro exI [of _ "(part_num, start + d, end) # new"]) simp
    qed
    show ?thesis
    proof (cases "srv part_num k (start + d, end)")
      case ConnectError
      have "requests (sleep_retry d ?w1) = requests w @ [(part_num, start + d, end)]" by simp
      from step [OF _ this, of _ d] Suc.IH [of "Suc k" d "sleep_retry d ?w1"]
      show ?thesis using True ConnectError by (simp add: Let_def) blast
    next
      case HTTPError
      have "requests (sleep_retry d ?w1) = requests w @ [(part_num, start + d, end)]" by simp
      from step [OF _ this, of _ d] Suc.IH [of "Suc k" d "sleep_retry d ?w1"]
      show ?thesis using True HTTPError by (simp add: Let_def) blast
    next
      case (Stream chunks finished)
      obtain d' w2 where wc: "write_chunks (part_file filename part_num) chunks d
          (open_append (part_file filename part_num) ?w1) = (d', w2)"
        by (cases "write_chunks (part_file filename part_num) chunks d
          (open_append (part_file filename part_num) ?w1)") blast
      have d': "d \<le> d'"
        using write_chunks_downloaded [of "part_file filename part_num" chunks d
            "open_append (part_file filename part_num) ?w1"] wc by simp
      have rq: "requests w2 = requests w @ [(part_num, start + d, end)]"
        using write_chunks_requests [of "part_file filename part_num" chunks d
            "open_append (part_file filename part_num) ?w1"] wc by simp
      show ?thesis
      proof (cases finished)
        case True
        have "\<exists>new. requests (world_of (Returned d' w2)) = requests w2 @ new
          \<and> (\<forall>e \<in> set new. fst e = part_num \<and> start + d' \<le> fst (snd e) \<and> snd (snd e) = end)"
          by (simp add: world_of_def)
        from step [OF this rq d'] show ?thesis
          using \<open>d < end - start + 1\<close> Stream wc True by (simp add: Let_def)
      next
        case False
        have rq': "requests (sleep_retry d' w2) = requests w @ [(part_num, start + d, end)]"
          using rq by simp
        from step [OF _ rq' d'] Suc.IH [of "Suc k" d' "sleep_retry d' w2"]
        show ?thesis
          using \<open>d < end - start + 1\<close> Stream wc False by (simp add: Let_def) blast
      qed
    qed
  qed
qed

text \<open>
  C5. A worker that finds \<open>k\<close> bytes in its part file (0 when there is none) and still
  has bytes to fetch sends as its first request the bytes \<open>start + k\<close> to \<open>end\<close>, which
  are the \<open>range.length - k\<close> remaining ones; no request of the run, however many
  retries it takes, starts below \<open>start + k\<close> or ends elsewhere than at \<open>end\<close>; and a
  worker whose part file already holds the whole range sends no request.
\<close>

theorem resume_requests_only_the_rest:
  assumes "k = size_on_disk w (part_file filename part_num)"
    and "r = download_range srv filename start end part_num (Suc fuel) w"
  shows "(k < end - start + 1 \<longrightarrow>
            new_requests w r \<noteq> [] \<and> hd (new_requests w r) = (part_num, start + k, end)
            \<and> end - (start + k) + 1 = (end - start + 1) - k)
         \<and> (\<forall>e \<in> set (new_requests w r). start + k \<le> fst (snd e) \<and> snd (snd e) = end)
         \<and> (\<not> k < end - start + 1 \<longrightarrow> new_requests w r = [])"
proof -
  from download_loop_requests [of srv filename start "end" part_num "Suc fuel" 0 k w]
  obtain new where new: "requests (world_of r) = requests w @ new"
    "\<forall>e \<in> set new. fst e = part_num \<and> start + k \<le> fst (snd e) \<and> snd (snd e) = end"
    "k < end - start + 1 \<longrightarrow> new \<noteq> [] \<and> hd new = (part_num, start + k, end)"
    "\<not> k < end - start + 1 \<longrightarrow> new = []"
    unfolding assms download_range_def by auto
  have "new_requests w r = new"
    by (simp add: new_requests_def new(1))
  then show ?thesis using new(2,3,4) by simp
qed

theorem resume_requests_only_the_rest_witness:
  "new_requests (empty_world\<lparr>files := [''f.part2'' \<mapsto> [5, 6, 7]]\<rparr>)
      (download_range flaky_server ''f'' 20 29 2 (Suc 3)
         (empty_world\<lparr>files := [''f.part2'' \<mapsto> [5, 6, 7]]\<rparr>))
     = [(2, 23, 29), (2, 25, 29), (2, 25, 29)]
   \<and> hd (new_requests (empty_world\<lparr>files := [''f.part2'' \<mapsto> [5, 6, 7]]\<rparr>)
      (download_range flaky_server ''f'' 20 29 2 (Suc 3)
         (empty_world\<lparr>files := [''f.part2'' \<mapsto> [5, 6, 7]]\<rparr>))) = (2, 20 + 3, 29)"
proof -
  let ?w = "empty_world\<lparr>files := [''f.part2'' \<mapsto> [5, 6, 7]]\<rparr>"
  have k: "3 = size_on_disk ?w (part_file ''f'' 2)"
    by code_simp
  have lt: "(3::int) < 29 - 20 + 1" by simp
  have v: "new_requests ?w (download_range flaky_server ''f'' 20 29 2 (Suc 3) ?w)
     = [(2, 23, 29), (2, 25, 29), (2, 25, 29)]"
    by code_simp
  show ?thesis
    using lt v k
      resume_requests_only_the_rest [of 3 ?w "''f''" 2
        "download_range flaky_server ''f'' 20 29 2 (Suc 3) ?w" flaky_server 20 29 3]
    by simp
qed

lemma size_on_disk_frame [simp]:
  "size_on_disk (send_request p a b w) path = size_on_disk w path"
  "size_on_disk (sleep_retry d w) path = size_on_disk w path"
  by (simp_all add: size_on_disk_def)

lemma size_on_disk_open_append [simp]:
  "size_on_disk (open_append path w) path' = size_on_disk w path'"
  by (simp add: size_on_disk_def open_append_def split: option.splits)

lemma files_open_append_same: "files (open_append path w) path \<noteq> None"
  by (simp add: open_append_def split: option.splits)

lemma write_chunks_size:
  assumes "files w path \<noteq> None"
  shows "size_on_disk (snd (write_chunks path chunks d w)) path
           = size_on_disk w path + int (length (concat chunks))
         \<and> files (snd (write_chunks path chunks d w)) path \<noteq> None"
proof -
  from assms obtain old where old: "files w path = Some old" by blast
  show ?thesis
    by (simp add: write_chunks_files [OF old] size_on_disk_def old)
qed

lemma write_chunks_after_open:
  "size_on_disk (snd (write_chunks path chunks d (open_append path w))) path
     = size_on_disk w path + int (length (concat chunks))
   \<and> files (snd (write_chunks path chunks d (open_append path w))) path \<noteq> None"
  using write_chunks_size [OF files_open_append_same] by simp

lemma download_loop_size:
  "download_loop srv filename start end part_num fuel k d w = Returned d' w' \<Longrightarrow>
   size_on_disk w (part_file filename part_num) = d \<Longrightarrow>
   size_on_disk w' (part_file filename part_num) = d' \<and> d \<le> d'"
proof (induction fuel arbitrary: k d w)
  case 0
  then show ?case by (simp split: if_splits)
next
  case (Suc fuel)
  let ?pf = "part_file filename part_num"
  show ?case
  proof (cases "d < end - start + 1")
    case False
    then show ?thesis using Suc.prems by simp
  next
    case True
    let ?w1 = "send_request part_num (start + d) end w"
    show ?thesis
    proof (cases "srv part_num k (start + d, end)")
      case ConnectError
      then have "download_loop srv filename start end part_num fuel (Suc k) d (sleep_retry d ?w1)
          = Returned d' w'"
        using Suc.prems(1) True by (simp add: Let_def)
      from Suc.IH [OF this] show ?thesis using Suc.prems(2) by simp
    next
      case HTTPError
      then have "download_loop srv filename start end part_num fuel (Suc k) d (sleep_retry d ?w1)
          = Returned d' w'"
        using Suc.prems(1) True by (simp add: Let_def)
      from Suc.IH [OF this] show ?thesis using Suc.prems(2) by simp
    next
      case (Stream chunks finished)
      obtain d2 w2 where wc: "write_chunks ?pf chunks d (open_append ?pf ?w1) = (d2, w2)"
        by (cases "write_chunks ?pf chunks d (open_append ?pf ?w1)") blast
      have d2: "d2 = d + int (length (concat chunks))"
        using write_chunks_downloaded [of ?pf chunks d "open_append ?pf ?w1"] wc by simp
      have sz: "size_on_disk w2 ?pf = d2"
        using write_chunks_after_open [of ?pf chunks d ?w1] wc d2 Suc.prems(2)
        by simp
      show ?thesis
      proof (cases finished)
        case True
        then have "d' = d2" "w' = w2"
          using Suc.prems(1) \<open>d < end - start + 1\<close> Stream wc by (simp_all add: Let_def)
        then show ?thesis using sz d2 by simp
      next
        case False
        then have "download_loop srv filename start end part_num fuel (Suc k) d2
            (sleep_retry d2 w2) = Returned d' w'"
          using Suc.prems(1) \<open>d < end - start + 1\<close> Stream wc by (simp add: Let_def)
        from Suc.IH [OF this] show ?thesis using sz d2 by simp
      qed
    qed
  qed
qed

lemma download_loop_exact:
  "download_loop srv filename start end part_num fuel k d w = Returned d' w' \<Longrightarrow>
   honours_range srv \<Longrightarrow> d \<le> end - start + 1 \<Longrightarrow> d' = end - start + 1"
proof (induction fuel arbitrary: k d w)
  case 0
  then show ?case by (simp split: if_splits)
next
  case (Suc fuel)
  let ?pf = "part_file filename part_num"
  show ?case
  proof (cases "d < end - start + 1")
    case False
    then show ?thesis using Suc.prems by simp
  next
    case True
    let ?w1 = "send_request part_num (start + d) end w"
    show ?thesis
    proof (cases "srv part_num k (start + d, end)")
      case ConnectError
      then have "download_loop srv filename start end part_num fuel (Suc k) d (sleep_retry d ?w1)
          = Returned d' w'"
        using Suc.prems(1) True by (simp add: Let_def)
      from Suc.IH [OF this Suc.prems(2,3)] show ?thesis .
    next
      case HTTPError
      then have "download_loop srv filename start end part_num fuel (Suc k) d (sleep_retry d ?w1)
          = Returned d' w'"
        using Suc.prems(1) True by (simp add: Let_def)
      from Suc.IH [OF this Suc.prems(2,3)] show ?thesis .
    next
      case (Stream chunks finished)
      obtain d2 w2 where wc: "write_chunks ?pf chunks d (open_append ?pf ?w1) = (d2, w2)"
        by (cases "write_chunks ?pf chunks d (open_append ?pf ?w1)") blast
      have d2: "d2 = d + int (length (concat chunks))"
        using write_chunks_downloaded [of ?pf chunks d "open_append ?pf ?w1"] wc by simp
      have hon: "int (length (concat chunks)) \<le> end - (start + d) + 1
          \<and> (finished \<longrightarrow> int (length (concat chunks)) = end - (start + d) + 1)"
      proof -
        have "start + d \<le> end" using \<open>d < end - start + 1\<close> by simp
        with Suc.prems(2) have "case srv part_num k (start + d, end) of
            Stream chunks finished \<Rightarrow>
              int (length (concat chunks)) \<le> end - (start + d) + 1
              \<and> (finished \<longrightarrow> int (length (concat chunks)) = end - (start + d) + 1)
          | _ \<Rightarrow> True"
          unfolding honours_range_def by blast
        then show ?thesis by (simp add: Stream)
      qed
      show ?thesis
      proof (cases finished)
        case True
        then have "d' = d2"
          using Suc.prems(1) \<open>d < end - start + 1\<close> Stream wc by (simp add: Let_def)
        then show ?thesis using hon True d2 by simp
      next
        case False
        then have run: "download_loop srv filename start end part_num fuel (Suc k) d2
            (sleep_retry d2 w2) = Returned d' w'"
          using Suc.prems(1) \<open>d < end - start + 1\<close> Stream wc by (simp add: Let_def)
        have "d2 \<le> end - start + 1" using hon d2 by simp
        from Suc.IH [OF run Suc.prems(2) this] show ?thesis .
      qed
    qed
  qed
qed

text \<open>
  C6, as amended. The loop gives up its condition at the \<open>break\<close> that follows the first
  response streamed to its end, whatever that response delivered: the counterexample is
  a complete response of three bytes to a request for ten, after which the worker returns
  with a part file of three bytes. What holds: when the worker returns, \<open>downloaded\<close> is
  the size of the part file, which has not shrunk; and when the part file held at most
  \<open>range.length\<close> bytes at the start and the server honours the range, the part file
  holds exactly \<open>range.length\<close> bytes.
\<close>

theorem worker_returns_with_streamed_bytes:
  assumes "download_range srv filename start end part_num fuel w = Returned downloaded w'"
  shows "size_on_disk w' (part_file filename part_num) = downloaded
         \<and> size_on_disk w (part_file filename part_num) \<le> downloaded
         \<and> (honours_range srv \<and> size_on_disk w (part_file filename part_num) \<le> end - start + 1
              \<longrightarrow> downloaded = end - start + 1)"
proof -
  let ?k = "size_on_disk w (part_file filename part_num)"
  have run: "download_loop srv filename start end part_num fuel 0 ?k w = Returned downloaded w'"
    using assms by (simp add: download_range_def)
  have a: "size_on_disk w' (part_file filename part_num) = downloaded \<and> ?k \<le> downloaded"
    using download_loop_size [OF run refl] .
  have b: "downloaded = end - start + 1" if "honours_range srv" "?k \<le> end - start + 1"
    using download_loop_exact [OF run that] .
  show ?thesis using a b by blast
qed

text \<open>
  The counterexample to C6 as stated: a complete response of three bytes to a request
  for ten ends the loop with three bytes in the part file.
\<close>

theorem worker_returns_short_counterexample:
  "(case download_range short_server ''f'' 0 9 0 1 empty_world of
      Returned downloaded w \<Rightarrow>
        downloaded = 3 \<and> size_on_disk w (part_file ''f'' 0) = 3 \<and> (3::int) < 9 - 0 + 1
    | Retrying downloaded w \<Rightarrow> False)"
  by code_simp

lemma honours_range_exact_server: "honours_range exact_server"
  by (simp add: honours_range_def exact_server_def)

lemma honours_range_flaky_server: "honours_range flaky_server"
  by (auto simp: honours_range_def flaky_server_def min_def)

theorem worker_returns_with_streamed_bytes_witness:
  "size_on_disk
     (world_of (download_range flaky_server ''f'' 20 29 2 3 empty_world)) (part_file ''f'' 2) = 10
   \<and> size_on_disk empty_world (part_file ''f'' 2) \<le> 10
   \<and> (10::int) = 29 - 20 + 1"
proof -
  have "case download_range flaky_server ''f'' 20 29 2 3 empty_world of
      Returned downloaded w \<Rightarrow> True | Retrying downloaded w \<Rightarrow> False"
    by code_simp
  then obtain d w' where r: "download_range flaky_server ''f'' 20 29 2 3 empty_world = Returned d w'"
    by (auto split: run.splits)
  have s: "size_on_disk empty_world (part_file ''f'' 2) \<le> 29 - 20 + 1"
    by (simp add: size_on_disk_def empty_world_def)
  show ?thesis
    using worker_returns_with_streamed_bytes [OF r] honours_range_flaky_server s r
    by (simp add: world_of_def)
qed

section \<open>Part file names are distinct\<close>

lemma str_nat_nonempty: "str_nat n \<noteq> []"
  by (subst str_nat.simps) simp

lemma digit_char_inj: "a < 10 \<Longrightarrow> b < 10 \<Longrightarrow> digit_char a = digit_char b \<Longrightarrow> a = b"
proof -
  assume a: "a < 10" and b: "b < 10" and e: "digit_char a = digit_char b"
  have "(of_char (digit_char a) :: nat) = of_char (digit_char b)"
    using e by simp
  then have "(48 + a) mod 256 = (48 + b) mod 256"
    by (simp only: digit_char_def of_char_of)
  moreover have "(48 + a) mod 256 = 48 + a" using a by simp
  moreover have "(48 + b) mod 256 = 48 + b" using b by simp
  ultimately show "a = b" by simp
qed

lemma str_nat_small: "n < 10 \<Longrightarrow> str_nat n = [digit_char n]"
  by (subst str_nat.simps) simp

lemma str_nat_large: "\<not> n < 10 \<Longrightarrow> str_nat n = str_nat (n div 10) @ [digit_char (n mod 10)]"
  by (subst str_nat.simps) simp

lemma str_nat_inj: "str_nat m = str_nat n \<Longrightarrow> m = n"
proof (induction m arbitrary: n rule: str_nat.induct)
  case (1 m)
  show ?case
  proof (cases "m < 10")
    case m: True
    show ?thesis
    proof (cases "n < 10")
      case True
      have "[digit_char m] = [digit_char n]"
        using "1.prems" by (simp only: str_nat_small [OF m] str_nat_small [OF True])
      then show ?thesis using digit_char_inj [OF m True] by simp
    next
      case False
      have "[digit_char m] = str_nat (n div 10) @ [digit_char (n mod 10)]"
        using "1.prems" by (simp only: str_nat_small [OF m] str_nat_large [OF False])
      then show ?thesis using str_nat_nonempty [of "n div 10"] by simp
    qed
  next
    case m: False
    show ?thesis
    proof (cases "n < 10")
      case True
      have "str_nat (m div 10) @ [digit_char (m mod 10)] = [digit_char n]"
        using "1.prems" by (simp only: str_nat_large [OF m] str_nat_small [OF True])
      then show ?thesis using str_nat_nonempty [of "m div 10"] by simp
    next
      case False
      have eq: "str_nat (m div 10) @ [digit_char (m mod 10)]
          = str_nat (n div 10) @ [digit_char (n mod 10)]"
        using "1.prems" by (simp only: str_nat_large [OF m] str_nat_large [OF False])
      then have sn: "str_nat (m div 10) = str_nat (n div 10)"
        and dg: "digit_char (m mod 10) = digit_char (n mod 10)" by simp_all
      have "m div 10 = n div 10" using "1.IH" [OF m sn] .
      moreover have "m mod 10 = n mod 10" using dg by (simp add: digit_char_inj)
      ultimately show ?thesis by (metis div_mult_mod_eq)
    qed
  qed
qed

lemma part_file_inj [simp]: "part_file filename i = part_file filename j \<longleftrightarrow> i = j"
  by (auto simp: part_file_def dest: str_nat_inj)

lemma part_file_not_dest [simp]:
  "part_file filename i \<noteq> filename" "filename \<noteq> part_file filename i"
  by (simp_all add: part_file_def)

section \<open>What the merge does\<close>

lemma merge_loop_effect:
  assumes "distinct pre"
    and "\<forall>i \<in> set pre. files w (part_file filename i) = Some (parts i)"
    and "rest \<noteq> [] \<longrightarrow> files w (part_file filename (hd rest)) = None"
  shows "fst (merge_loop filename (pre @ rest) written w)
           = (if rest = [] then Inr () else Inl FileNotFoundError)
       \<and> files (snd (merge_loop filename (pre @ rest) written w)) filename
           = (if pre = [] then files w filename else Some (written @ concat (map parts pre)))
       \<and> (\<forall>i \<in> set pre. files (snd (merge_loop filename (pre @ rest) written w))
                            (part_file filename i) = None)
       \<and> (\<forall>p. p \<noteq> filename \<and> p \<notin> part_file filename ` set pre \<longrightarrow>
              files (snd (merge_loop filename (pre @ rest) written w)) p = files w p)"
  using assms
proof (induction pre arbitrary: written w)
  case Nil
  then show ?case by (cases rest) simp_all
next
  case (Cons i pre)
  let ?w1 = "os_remove (part_file filename i)
      (w\<lparr>files := (files w)(filename \<mapsto> written @ parts i)\<rparr>)"
  let ?r = "merge_loop filename (pre @ rest) (written @ parts i) ?w1"
  have step: "merge_loop filename ((i # pre) @ rest) written w = ?r"
    using Cons.prems(2) by simp
  have f1: "files ?w1 = ((files w)(filename \<mapsto> written @ parts i))(part_file filename i := None)"
    by (simp add: os_remove_def)
  have d: "distinct pre" and ni: "i \<notin> set pre" using Cons.prems(1) by simp_all
  have p1: "\<forall>j \<in> set pre. files ?w1 (part_file filename j) = Some (parts j)"
    using Cons.prems(2) ni by (auto simp: f1)
  have r1: "rest \<noteq> [] \<longrightarrow> files ?w1 (part_file filename (hd rest)) = None"
    using Cons.prems(3) by (simp add: f1)
  have IH: "fst ?r = (if rest = [] then Inr () else Inl FileNotFoundError)"
    "files (snd ?r) filename
       = (if pre = [] then files ?w1 filename else Some ((written @ parts i) @ concat (map parts pre)))"
    "\<forall>j \<in> set pre. files (snd ?r) (part_file filename j) = None"
    "\<forall>p. p \<noteq> filename \<and> p \<notin> part_file filename ` set pre \<longrightarrow> files (snd ?r) p = files ?w1 p"
    using Cons.IH [OF d p1 r1, of "written @ parts i"] by simp_all
  have dest: "files ?w1 filename = Some (written @ parts i)" by (simp add: f1)
  have c2: "files (snd ?r) filename = Some (written @ concat (map parts (i # pre)))"
    using IH(2) dest by simp
  have "part_file filename i \<notin> part_file filename ` set pre" using ni by auto
  then have "files (snd ?r) (part_file filename i) = files ?w1 (part_file filename i)"
    using IH(4) by simp
  then have hd_gone: "files (snd ?r) (part_file filename i) = None" by (simp add: f1)
  have c3: "\<forall>j \<in> set (i # pre). files (snd ?r) (part_file filename j) = None"
    using IH(3) hd_gone by simp
  have c4: "\<forall>p. p \<noteq> filename \<and> p \<notin> part_file filename ` set (i # pre) \<longrightarrow>
      files (snd ?r) p = files w p"
  proof (intro allI impI)
    fix p assume p: "p \<noteq> filename \<and> p \<notin> part_file filename ` set (i # pre)"
    then have "files (snd ?r) p = files ?w1 p" using IH(4) by simp
    also have "\<dots> = files w p" using p by (simp add: f1)
    finally show "files (snd ?r) p = files w p" .
  qed
  show ?case
    unfolding step using IH(1) c2 c3 c4 by simp
qed

lemma merge_parts_result:
  assumes "k \<le> nat num_threads"
    and "\<forall>i < k. files w (part_file filename i) = Some (parts i)"
    and "k < nat num_threads \<longrightarrow> files w (part_file filename k) = None"
  shows "fst (merge_parts filename num_threads w)
           = (if k = nat num_threads then Inr () else Inl FileNotFoundError)
       \<and> files (snd (merge_parts filename num_threads w)) filename
           = Some (concat (map parts [0..<k]))
       \<and> (\<forall>i < k. files (snd (merge_parts filename num_threads w)) (part_file filename i) = None)
       \<and> (\<forall>p. p \<noteq> filename \<and> (\<forall>i < k. p \<noteq> part_file filename i) \<longrightarrow>
              files (snd (merge_parts filename num_threads w)) p = files w p)"
proof -
  define n where "n = nat num_threads"
  let ?w0 = "w\<lparr>files := (files w)(filename \<mapsto> [])\<rparr>"
  let ?rest = "[k..<n]"
  have kn: "k \<le> n" using assms(1) by (simp add: n_def)
  have split: "[0..<n] = [0..<k] @ ?rest"
    using kn by (metis le_add_diff_inverse upt_add_eq_append zero_le)
  have a1: "distinct [0..<k]" by simp
  have a2: "\<forall>i \<in> set [0..<k]. files ?w0 (part_file filename i) = Some (parts i)"
    using assms(2) by simp
  have a3: "?rest \<noteq> [] \<longrightarrow> files ?w0 (part_file filename (hd ?rest)) = None"
    using assms(3) by (simp add: n_def)
  have rest: "?rest = [] \<longleftrightarrow> k = n" using kn by auto
  have mem: "(p \<notin> part_file filename ` set [0..<k]) = (\<forall>i < k. p \<noteq> part_file filename i)" for p
    by auto
  have dest0: "files ?w0 filename = Some []" by simp
  have run: "merge_parts filename num_threads w = merge_loop filename ([0..<k] @ ?rest) [] ?w0"
    by (simp only: merge_parts_def n_def [symmetric] split)
  from merge_loop_effect [OF a1 a2 a3, of "[]"]
  show ?thesis
    unfolding run rest mem dest0 n_def [symmetric]
    by (cases "k = 0") simp_all
qed

text \<open>
  C1, as amended. The merge is not atomic: it cuts the destination to length 0 before it
  looks at any part and removes each part right after copying it. In the
  counterexample part 1 is missing: the merge raises, the destination has lost its old
  content and holds part 0, and part 0 is gone. What holds: if the parts \<open>0..k-1\<close> exist
  and part \<open>k\<close> is the first missing one (or \<open>k\<close> is the part count), the merge raises
  \<open>FileNotFoundError\<close> (or returns), the destination holds the concatenation of the
  parts \<open>0..k-1\<close> in order, these parts are removed, and every other file, the parts
  after \<open>k\<close> among them, is as before. The length of a part is never checked.
\<close>

theorem merge_parts_effect:
  assumes "k \<le> nat num_threads"
    and "\<forall>i < k. files w (part_file filename i) = Some (parts i)"
    and "k < nat num_threads \<longrightarrow> files w (part_file filename k) = None"
  shows "fst (merge_parts filename num_threads w)
           = (if k = nat num_threads then Inr () else Inl FileNotFoundError)
       \<and> files (snd (merge_parts filename num_threads w)) filename
           = Some (concat (map parts [0..<k]))
       \<and> (\<forall>i < k. files (snd (merge_parts filename num_threads w)) (part_file filename i) = None)
       \<and> (\<forall>p. p \<noteq> filename \<and> (\<forall>i < k. p \<noteq> part_file filename i) \<longrightarrow>
              files (snd (merge_parts filename num_threads w)) p = files w p)"
  using assms by (rule merge_parts_result)

text \<open>
  The counterexample to C1 as stated: part 1 is missing, and the failed merge has
  replaced the destination's content and removed part 0.
\<close>

theorem merge_not_atomic_counterexample:
  "fst (merge_parts ''f'' 2 interrupted_world) = Inl FileNotFoundError
   \<and> files interrupted_world ''f'' = Some [9]
   \<and> files (snd (merge_parts ''f'' 2 interrupted_world)) ''f'' = Some [1, 2]
   \<and> files interrupted_world ''f.part0'' = Some [1, 2]
   \<and> files (snd (merge_parts ''f'' 2 interrupted_world)) ''f.part0'' = None"
  by code_simp

lemma part_file_f_0: "part_file ''f'' 0 = ''f.part0''"
  by code_simp

lemma part_file_f_1: "part_file ''f'' 1 = ''f.part1''"
  by code_simp

theorem merge_parts_effect_witness:
  "fst (merge_parts ''f'' 2 interrupted_world) = Inl FileNotFoundError
   \<and> files (snd (merge_parts ''f'' 2 interrupted_world)) ''f'' = Some (concat (map (\<lambda>i. [1, 2]) [0..<1]))
   \<and> files (snd (merge_parts ''f'' 2 interrupted_world)) (part_file ''f'' 0) = None
   \<and> files (snd (merge_parts ''f'' 2 interrupted_world)) ''g'' = files interrupted_world ''g''"
proof -
  have h1: "(1::nat) \<le> nat 2" by simp
  have h2: "\<forall>i < (1::nat). files interrupted_world (part_file ''f'' i) = Some [1, 2]"
    by (simp add: part_file_f_0 interrupted_world_def)
  have "files interrupted_world ''f.part1'' = None"
    by (simp add: interrupted_world_def)
  then have h3: "(1::nat) < nat 2 \<longrightarrow> files interrupted_world (part_file ''f'' 1) = None"
    by (simp only: part_file_f_1) simp
  have g: "''g'' \<noteq> ''f'' \<and> (\<forall>i < (1::nat). ''g'' \<noteq> part_file ''f'' i)"
    by (simp add: part_file_f_0)
  show ?thesis
    using merge_parts_effect [of 1 2 interrupted_world "''f''" "\<lambda>i. [1, 2]", OF h1 h2 h3] g
    by simp
qed

section \<open>Rounding to a double\<close>

lemma bit_length_bounds:
  "0 < n \<Longrightarrow> 0 < bit_length n \<and> 2 ^ (bit_length n - 1) \<le> n \<and> n < 2 ^ bit_length n"
proof (induction n rule: bit_length.induct)
  case (1 n)
  have pos: "0 < n" by fact
  have bl: "bit_length n = Suc (bit_length (n div 2))"
    using pos by (subst bit_length.simps) simp
  show ?case
  proof (cases "n div 2 = 0")
    case True
    then have n1: "n = 1" using pos by presburger
    have "bit_length n = Suc 0"
      unfolding bl True by (simp add: bit_length.simps [of 0])
    then show ?thesis using n1 by simp
  next
    case False
    then have h: "0 < n div 2" using pos by presburger
    have "n \<noteq> 0" using pos by simp
    moreover have "\<bar>n\<bar> div 2 = n div 2" using pos by simp
    ultimately have IH: "0 < bit_length (n div 2)
        \<and> 2 ^ (bit_length (n div 2) - 1) \<le> n div 2 \<and> n div 2 < 2 ^ bit_length (n div 2)"
      using "1.IH" h by simp
    define k where "k = bit_length (n div 2)"
    obtain j where j: "k = Suc j" using IH unfolding k_def by (cases "bit_length (n div 2)") auto
    have lo: "(2::int) ^ j \<le> n div 2" and hi: "n div 2 < 2 ^ Suc j"
      using IH unfolding k_def [symmetric] j by simp_all
    have "2 * (n div 2) \<le> n" "n \<le> 2 * (n div 2) + 1" by presburger+
    then have "(2::int) ^ Suc j \<le> n" "n < 2 ^ Suc (Suc j)"
      using lo hi by simp_all
    then show ?thesis
      unfolding bl k_def [symmetric] j by simp
  qed
qed

lemma round_half_even_bounds:
  assumes "0 < d"
  shows "2 * n - d \<le> 2 * (d * round_half_even n d) \<and> 2 * (d * round_half_even n d) \<le> 2 * n + d"
proof -
  define q where "q = n div d"
  define r where "r = n mod d"
  have n: "n = d * q + r" by (simp add: q_def r_def)
  have r: "0 \<le> r" "r < d" using assms by (simp_all add: r_def)
  have v: "round_half_even n d = q \<and> 2 * r \<le> d \<or> round_half_even n d = q + 1 \<and> d \<le> 2 * r"
    unfolding round_half_even_def q_def [symmetric] r_def [symmetric] Let_def by auto
  have e: "d * (q + 1) = d * q + d" by (simp add: algebra_simps)
  from v show ?thesis
  proof
    assume "round_half_even n d = q \<and> 2 * r \<le> d"
    then show ?thesis using n r by simp
  next
    assume "round_half_even n d = q + 1 \<and> d \<le> 2 * r"
    then show ?thesis using n r e by simp
  qed
qed

lemma round_half_even_le:
  assumes "0 < d" and "n \<le> K * d"
  shows "round_half_even n d \<le> K"
proof -
  define q where "q = n div d"
  define r where "r = n mod d"
  have r: "0 \<le> r" "r < d" using assms(1) by (simp_all add: r_def)
  have qK: "q \<le> K"
    unfolding q_def using zdiv_mono1 [OF assms(2), of d] assms(1) by simp
  show ?thesis
  proof (cases "q = K")
    case True
    have "n = d * q + r" by (simp add: q_def r_def)
    then have "r \<le> 0" using assms(2) True by (simp add: mult.commute)
    then have "r = 0" using r by simp
    then show ?thesis
      unfolding round_half_even_def q_def [symmetric] r_def [symmetric] Let_def
      using assms(1) True by simp
  next
    case False
    then have "q + 1 \<le> K" using qK by simp
    then show ?thesis
      unfolding round_half_even_def q_def [symmetric] r_def [symmetric] Let_def
      using qK by simp
  qed
qed

lemma round_half_even_ge:
  assumes "0 < d" and "K * d \<le> n"
  shows "K \<le> round_half_even n d"
proof -
  have "K \<le> n div d"
    using zdiv_mono1 [OF assms(2), of d] assms(1) by simp
  then show ?thesis
    unfolding round_half_even_def Let_def by simp
qed

lemma round_half_even_gt:
  assumes "0 < d" and "K * d + h \<le> n" and "d < 2 * h"
  shows "K < round_half_even n d"
proof -
  define q where "q = n div d"
  define r where "r = n mod d"
  have n: "n = d * q + r" by (simp add: q_def r_def)
  have "K * d \<le> n" using assms by simp
  then have Kq: "K \<le> q"
    unfolding q_def using zdiv_mono1 [of "K * d" n d] assms(1) by simp
  show ?thesis
  proof (cases "q = K")
    case True
    then have "h \<le> r" using n assms(2) by (simp add: mult.commute)
    then have "d < 2 * r" using assms(3) by simp
    then show ?thesis
      unfolding round_half_even_def q_def [symmetric] r_def [symmetric] Let_def
      using True by simp
  next
    case False
    then have "K < q" using Kq by simp
    then show ?thesis
      unfolding round_half_even_def q_def [symmetric] r_def [symmetric] Let_def
      by simp
  qed
qed

lemma bit_length_mono:
  assumes "0 < b" and "b \<le> a"
  shows "bit_length b \<le> bit_length a"
proof -
  have "(2::int) ^ (bit_length b - 1) \<le> b" using bit_length_bounds [OF assms(1)] by simp
  also have "b \<le> a" by fact
  also have "a < 2 ^ bit_length a" using bit_length_bounds [of a] assms by simp
  finally have "(2::int) ^ (bit_length b - 1) < 2 ^ bit_length a" .
  then have "bit_length b - 1 < bit_length a" by simp
  then show ?thesis by simp
qed

lemma float_exponent_bounds:
  assumes "0 < b" and "b \<le> a"
  shows "0 \<le> float_exponent a b
       \<and> b * 2 ^ nat (float_exponent a b) \<le> a
       \<and> a < b * 2 ^ nat (float_exponent a b + 1)"
proof -
  have pa: "0 < a" using assms by simp
  obtain j where lb: "bit_length b = Suc j"
    using bit_length_bounds [OF assms(1)] by (cases "bit_length b") auto
  obtain k where la: "bit_length a = Suc j + k"
    using bit_length_mono [OF assms] lb by (metis le_Suc_ex)
  have b_lo: "(2::int) ^ j \<le> b" and b_hi: "b < 2 ^ Suc j"
    using bit_length_bounds [OF assms(1)] unfolding lb by simp_all
  have a_lo: "(2::int) ^ (j + k) \<le> a" and a_hi: "a < 2 ^ (Suc j + k)"
    using bit_length_bounds [OF pa] unfolding la by simp_all
  have d: "int (bit_length a) - int (bit_length b) = int k" by (simp add: la lb)
  have fe: "float_exponent a b = (if a < b * 2 ^ k then int k - 1 else int k)"
    unfolding float_exponent_def d Let_def by simp
  show ?thesis
  proof (cases "a < b * 2 ^ k")
    case True
    have "k \<noteq> 0" using True assms(2) by (cases k) auto
    then obtain i where k: "k = Suc i" by (cases k) auto
    have e: "float_exponent a b = int i" using True fe k by simp
    have "b * 2 ^ i \<le> 2 ^ Suc j * 2 ^ i"
      using b_hi by (simp add: mult_right_mono)
    also have "\<dots> = 2 * (2::int) ^ (j + i)" by (simp add: power_add)
    finally have "b * 2 ^ i \<le> 2 * 2 ^ (j + i)" .
    moreover have "2 * (2::int) ^ (j + i) \<le> a" using a_lo unfolding k by simp
    ultimately have lo: "b * 2 ^ i \<le> a" by simp
    have hi: "a < b * 2 ^ Suc i" using True unfolding k .
    show ?thesis using lo hi by (simp add: e nat_add_distrib)
  next
    case False
    have e: "float_exponent a b = int k" using False fe by simp
    have lo: "b * 2 ^ k \<le> a" using False by simp
    have "a < 2 ^ (Suc j + k)" by fact
    also have "\<dots> = 2 ^ j * (2::int) ^ Suc k" by (simp add: power_add)
    also have "\<dots> \<le> b * 2 ^ Suc k" using b_lo by (simp add: mult_right_mono)
    finally have hi: "a < b * 2 ^ Suc k" .
    show ?thesis using lo hi by (simp add: e nat_add_distrib)
  qed
qed

lemma true_divide_pos:
  assumes "0 < b" and "b \<le> a"
  shows "true_divide a b =
     (if overflow_bound \<le> round_half_even (a * 2 ^ nat (52 - float_exponent a b))
                       (b * 2 ^ nat (float_exponent a b - 52))
                     * 2 ^ nat (float_exponent a b - 52)
      then Inl OverflowError
      else Inr (round_half_even (a * 2 ^ nat (52 - float_exponent a b))
                  (b * 2 ^ nat (float_exponent a b - 52)),
                float_exponent a b - 52))"
proof -
  have e: "0 \<le> float_exponent a b" using float_exponent_bounds [OF assms] by simp
  have x: "max (float_exponent a b - 52) (- 1074) = float_exponent a b - 52"
    using e by simp
  have ab: "\<bar>a\<bar> = a" "\<bar>b\<bar> = b" "a \<noteq> 0" "b \<noteq> 0" "\<not> a < 0" "\<not> b < 0"
    using assms by simp_all
  have n: "- (float_exponent a b - 52) = 52 - float_exponent a b" by simp
  show ?thesis
    using ab by (simp only: true_divide_def x Let_def n if_False if_True simp_thms)
qed

lemma ceil_div_bounds:
  assumes "0 < (p::int)"
  shows "(- ((- m) div p) - 1) * p < m \<and> m \<le> - ((- m) div p) * p"
proof -
  define u where "u = (- m) div p"
  define v where "v = (- m) mod p"
  have "- m = p * u + v" by (simp add: u_def v_def)
  then have m: "m = (- u) * p - v" by (simp add: algebra_simps)
  have v: "0 \<le> v" "v < p" using assms by (simp_all add: v_def)
  have "(- u - 1) * p = (- u) * p - p" by (simp add: algebra_simps)
  then show ?thesis
    unfolding u_def [symmetric] using m v by simp
qed

lemma ceil_nonpos_exponent:
  "x \<le> 0 \<Longrightarrow> ceil (m, x) = - ((- m) div 2 ^ nat (- x))"
  by (cases "x = 0") (simp_all add: ceil_def)

lemma ceil_pos_exponent:
  "0 \<le> x \<Longrightarrow> ceil (m, x) = m * 2 ^ nat x"
  by (simp add: ceil_def)

text \<open>Quotients below \<open>2 ^ 53\<close>: the double has the exponent of its last bit at most 0.\<close>

lemma true_divide_small:
  assumes "0 < b" and "b \<le> a" and "float_exponent a b \<le> 52"
  defines "t \<equiv> nat (52 - float_exponent a b)"
  defines "m \<equiv> round_half_even (a * 2 ^ t) b"
  shows "true_divide a b = Inr (m, float_exponent a b - 52)"
    and "ceil (m, float_exponent a b - 52) = - ((- m) div 2 ^ t)"
    and "1 \<le> m"
proof -
  note eb = float_exponent_bounds [OF assms(1,2)]
  have e0: "0 \<le> float_exponent a b" using eb by simp
  have z: "nat (float_exponent a b - 52) = 0" using assms(3) by simp
  have te: "t + nat (float_exponent a b) = 52"
    unfolding t_def using e0 assms(3) by simp
  have "a * 2 ^ t < (b * 2 ^ nat (float_exponent a b + 1)) * 2 ^ t"
    using eb by simp
  also have "\<dots> = b * 2 ^ (nat (float_exponent a b + 1) + t)"
    by (simp add: power_add)
  also have "nat (float_exponent a b + 1) + t = 53"
    using te e0 by (simp add: nat_add_distrib)
  finally have "a * 2 ^ t \<le> 2 ^ 53 * b" by (simp add: mult.commute)
  then have m53: "m \<le> 2 ^ 53"
    unfolding m_def using round_half_even_le [OF assms(1)] by blast
  have "(2::int) ^ 53 < 2 ^ 1024" by (rule power_strict_increasing) simp_all
  then have "\<not> overflow_bound \<le> m * 2 ^ nat (float_exponent a b - 52)"
    unfolding z overflow_bound_def using m53 by simp
  then show "true_divide a b = Inr (m, float_exponent a b - 52)"
    unfolding true_divide_pos [OF assms(1,2)] m_def t_def z by simp
  have "ceil (m, float_exponent a b - 52) = - ((- m) div 2 ^ nat (- (float_exponent a b - 52)))"
    using assms(3) by (intro ceil_nonpos_exponent) simp
  then show "ceil (m, float_exponent a b - 52) = - ((- m) div 2 ^ t)"
    by (simp add: t_def)
  have "a * 1 \<le> a * 2 ^ t"
    using assms(1,2) by (intro mult_left_mono) simp_all
  then have "1 * b \<le> a * 2 ^ t" using assms(2) by simp
  then show "1 \<le> m"
    unfolding m_def using round_half_even_ge [OF assms(1)] by blast
qed

lemma small_quotient_ceil:
  assumes "0 < b" and "b \<le> a" and "float_exponent a b \<le> 52"
    and "true_divide a b = Inr q"
  shows "1 \<le> ceil q" and "ceil q \<le> ceil_div a b"
proof -
  define t where "t = nat (52 - float_exponent a b)"
  define m where "m = round_half_even (a * 2 ^ t) b"
  define C where "C = - ((- m) div 2 ^ t)"
  define c where "c = ceil_div a b"
  note td = true_divide_small [OF assms(1,2,3), folded t_def, folded m_def]
  have q: "ceil q = C" using assms(4) td(1,2) by (simp add: C_def)
  have p: "(0::int) < 2 ^ t" by simp
  have Cb: "(C - 1) * 2 ^ t < m" "m \<le> C * 2 ^ t"
    using ceil_div_bounds [OF p, of m] by (simp_all add: C_def)
  have cb: "(c - 1) * b < a" "a \<le> c * b"
    using ceil_div_bounds [OF assms(1), of a] by (simp_all add: c_def ceil_div_def)
  have "0 < C * 2 ^ t" using Cb(2) td(3) by simp
  then have "0 < C" using p by (simp add: zero_less_mult_iff)
  then show "1 \<le> ceil q" using q by simp
  have "a * 2 ^ t \<le> (c * b) * 2 ^ t" using cb(2) by (simp add: mult_right_mono)
  then have "a * 2 ^ t \<le> (c * 2 ^ t) * b" by (simp add: algebra_simps)
  then have "m \<le> c * 2 ^ t"
    unfolding m_def using round_half_even_le [OF assms(1)] by blast
  with Cb(1) have "(C - 1) * 2 ^ t < c * 2 ^ t" by (rule less_le_trans)
  then have "C - 1 < c" using p by (simp add: mult_less_cancel_right)
  then show "ceil q \<le> ceil_div a b" using q by (simp add: c_def)
qed

lemma below_2_53_exact:
  assumes "0 < b" and "b \<le> a" and "a < 2 ^ 53"
  shows "\<exists>q. true_divide a b = Inr q \<and> ceil q = ceil_div a b"
proof -
  note eb = float_exponent_bounds [OF assms(1,2)]
  have e0: "0 \<le> float_exponent a b" using eb by simp
  have "1 * 2 ^ nat (float_exponent a b) \<le> b * 2 ^ nat (float_exponent a b)"
    using assms(1) by (intro mult_right_mono) simp_all
  also have "\<dots> \<le> a" using eb by simp
  also have "a < 2 ^ 53" by fact
  finally have lt53: "(2::int) ^ nat (float_exponent a b) < 2 ^ 53" by simp
  have "1 < (2::int)" by simp
  from power_less_imp_less_exp [OF this lt53] have "nat (float_exponent a b) < 53" .
  then have e52: "float_exponent a b \<le> 52" by simp
  define t where "t = nat (52 - float_exponent a b)"
  define m where "m = round_half_even (a * 2 ^ t) b"
  define C where "C = - ((- m) div 2 ^ t)"
  define c where "c = ceil_div a b"
  note td = true_divide_small [OF assms(1,2) e52, folded t_def, folded m_def]
  have q: "ceil (m, float_exponent a b - 52) = C" using td(2) by (simp add: C_def)
  have p: "(0::int) < 2 ^ t" by simp
  have Cb: "(C - 1) * 2 ^ t < m" "m \<le> C * 2 ^ t"
    using ceil_div_bounds [OF p, of m] by (simp_all add: C_def)
  have cb: "(c - 1) * b < a" "a \<le> c * b"
    using ceil_div_bounds [OF assms(1), of a] by (simp_all add: c_def ceil_div_def)
  have upper: "C \<le> c"
    using small_quotient_ceil(2) [OF assms(1,2) e52 td(1)] q by (simp add: c_def)
  have te: "Suc t + nat (float_exponent a b) = 53"
    unfolding t_def using e0 e52 by simp
  have "b * 2 ^ nat (float_exponent a b) \<le> a" using eb by simp
  also have "a < 2 ^ 53" by fact
  also have "(2::int) ^ 53 = 2 ^ Suc t * 2 ^ nat (float_exponent a b)"
    unfolding power_add [symmetric] te ..
  finally have "b * 2 ^ nat (float_exponent a b) < 2 ^ Suc t * 2 ^ nat (float_exponent a b)" .
  then have "b < 2 ^ Suc t" by (simp add: mult_less_cancel_right)
  then have b2: "b < 2 * 2 ^ t" by simp
  have "(c - 1) * b + 1 \<le> a" using cb(1) by simp
  then have "((c - 1) * b + 1) * 2 ^ t \<le> a * 2 ^ t" by (simp add: mult_right_mono)
  then have "((c - 1) * 2 ^ t) * b + 2 ^ t \<le> a * 2 ^ t" by (simp add: algebra_simps)
  then have "(c - 1) * 2 ^ t < m"
    unfolding m_def using round_half_even_gt [OF assms(1) _ b2] by blast
  from this Cb(2) have "(c - 1) * 2 ^ t < C * 2 ^ t" by (rule less_le_trans)
  then have "c - 1 < C" using p by (simp add: mult_less_cancel_right)
  then have "C = c" using upper by simp
  then show ?thesis using td(1) q by (simp add: c_def)
qed

lemma large_quotient_ceil:
  assumes "0 < b" and "b \<le> a" and "52 < float_exponent a b"
    and "true_divide a b = Inr q"
  shows "1 \<le> ceil q" and "2 ^ 53 * (b * ceil q) \<le> (2 ^ 53 + 1) * a"
proof -
  note eb = float_exponent_bounds [OF assms(1,2)]
  define s where "s = nat (float_exponent a b - 52)"
  define m where "m = round_half_even a (b * 2 ^ s)"
  define V where "V = m * 2 ^ s"
  define D where "D = b * 2 ^ s"
  define H where "H = (2::int) ^ 52"
  have H: "0 < H" "1 \<le> H" by (simp_all add: H_def)
  have H2: "(2::int) ^ 53 = 2 * H" by (simp add: H_def)
  have z: "nat (52 - float_exponent a b) = 0" using assms(3) by simp
  have q: "q = (m, float_exponent a b - 52)"
    using assms(4) unfolding true_divide_pos [OF assms(1,2)] z m_def s_def
    by (simp split: if_splits)
  have cq: "ceil q = V"
    unfolding q V_def s_def using assms(3) by (simp add: ceil_pos_exponent)
  have d: "0 < D" using assms(1) by (simp add: D_def)
  have se: "nat (float_exponent a b) = s + 52"
    unfolding s_def using assms(3) by simp
  have "b * 2 ^ (s + 52) \<le> a" using eb unfolding se by simp
  then have scaled: "H * D \<le> a"
    by (simp add: power_add H_def D_def algebra_simps)
  have "1 * D \<le> H * D" using d H(2) by (intro mult_right_mono) simp_all
  then have "1 * D \<le> a" using scaled by simp
  then have m1: "1 \<le> m"
    unfolding m_def D_def [symmetric] using round_half_even_ge [OF d] by blast
  have "1 * 1 \<le> m * 2 ^ s" using m1 by (intro mult_mono) simp_all
  then show "1 \<le> ceil q" using cq by (simp add: V_def)
  have rb: "2 * (D * m) \<le> 2 * a + D"
    using round_half_even_bounds [OF d, of a] by (simp add: m_def D_def)
  have "H * (2 * (D * m)) \<le> H * (2 * a + D)"
    using rb H(1) by (intro mult_left_mono) simp_all
  also have "\<dots> = 2 * H * a + H * D" by (simp add: algebra_simps)
  also have "\<dots> \<le> 2 * H * a + a" using scaled by simp
  finally have main: "H * (2 * (D * m)) \<le> (2 * H + 1) * a"
    by (simp add: algebra_simps)
  have "D * m = b * V" by (simp add: V_def D_def algebra_simps)
  then have "H * (2 * (D * m)) = 2 * H * (b * V)" by (simp only: mult.assoc mult.left_commute)
  then have "2 * H * (b * V) \<le> (2 * H + 1) * a" using main by (simp only:)
  then show "2 ^ 53 * (b * ceil q) \<le> (2 ^ 53 + 1) * a"
    unfolding H2 cq .
qed

lemma part_size_bounds:
  assumes "0 < a" and "1 \<le> b" and "b \<le> 16" and "b * (b - 1) < a"
    and "true_divide a b = Inr q"
  shows "1 \<le> ceil q \<and> (b - 1) * ceil q < a"
proof -
  have b0: "0 < b" using assms(2) by simp
  have ba: "b \<le> a"
  proof (cases "b = 1")
    case True
    then show ?thesis using assms(1) by simp
  next
    case False
    then have "2 \<le> b" using assms(2) by simp
    then have "b * 1 \<le> b * (b - 1)" by (intro mult_left_mono) simp_all
    then show ?thesis using assms(4) by simp
  qed
  show ?thesis
  proof (cases "float_exponent a b \<le> 52")
    case True
    define c where "c = ceil_div a b"
    note sq = small_quotient_ceil [OF b0 ba True assms(5)]
    have cb: "(c - 1) * b < a" "a \<le> c * b"
      using ceil_div_bounds [OF b0, of a] by (simp_all add: c_def ceil_div_def)
    have le: "(b - 1) * ceil q \<le> (b - 1) * c"
      using sq(2) assms(2) unfolding c_def by (intro mult_left_mono) simp_all
    have "(b - 1) * c < a"
    proof (cases "b = 1")
      case True
      then show ?thesis using assms(1) by simp
    next
      case False
      have bc: "b \<le> c"
      proof (rule ccontr)
        assume "\<not> b \<le> c"
        then have "c \<le> b - 1" by simp
        then have "c * b \<le> (b - 1) * b" using b0 by (intro mult_right_mono) simp_all
        then have "a \<le> b * (b - 1)" using cb(2) by (simp add: mult.commute)
        then show False using assms(4) by simp
      qed
      have e1: "(b - 1) * c = c * b - c" by (simp add: algebra_simps)
      have e2: "(c - 1) * b = c * b - b" by (simp add: algebra_simps)
      have "c * b - b < a" using cb(1) unfolding e2 .
      then have "c * b - c < a" using bc by simp
      then show ?thesis unfolding e1 .
    qed
    then show ?thesis using sq(1) le by simp
  next
    case False
    then have big: "52 < float_exponent a b" by simp
    define P where "P = (2::int) ^ 53"
    have P: "16 \<le> P" by (simp add: P_def)
    note lq = large_quotient_ceil [OF b0 ba big assms(5), folded P_def]
    define V where "V = ceil q"
    have V: "1 \<le> V" using lq(1) by (simp add: V_def)
    have main: "P * (b * V) \<le> (P + 1) * a" using lq(2) by (simp add: V_def)
    have "(b - 1) * V < a"
    proof (rule ccontr)
      assume "\<not> (b - 1) * V < a"
      then have ge: "a \<le> (b - 1) * V" by simp
      have "P * (b * V) = P * ((b - 1) * V) + P * V" by (simp add: algebra_simps)
      moreover have "P * a \<le> P * ((b - 1) * V)"
        using ge P by (intro mult_left_mono) simp_all
      moreover have "(P + 1) * a = P * a + a" by (simp add: algebra_simps)
      ultimately have "P * V \<le> a" using main by simp
      then have "P * V \<le> (b - 1) * V" using ge by simp
      then have "P \<le> b - 1" using V by (simp add: mult_le_cancel_right)
      then show False using P assms(3) by simp
    qed
    then show ?thesis using V by (simp add: V_def)
  qed
qed

lemma choose_threads_product:
  assumes "0 < s"
  shows "choose_threads s * (choose_threads s - 1) < s"
proof (cases s rule: choose_threads_cases)
  case small
  then show ?thesis using assms by simp
next
  case medium
  define n where "n = choose_threads s"
  have n: "2 \<le> n" "n \<le> 4"
    unfolding n_def medium(3) using tier2_bounds [of "s div 52428800"] by simp_all
  have "n * (n - 1) \<le> 4 * 3" using n by (intro mult_mono) simp_all
  then show ?thesis unfolding n_def [symmetric] using medium(1) by simp
next
  case large
  define n where "n = choose_threads s"
  have n: "4 \<le> n" "n \<le> 16"
    unfolding n_def large(2) using tier3_bounds [of "s div 104857600"] by simp_all
  have "n * (n - 1) \<le> 16 * 15" using n by (intro mult_mono) simp_all
  then show ?thesis unfolding n_def [symmetric] using large(1) by simp
qed

lemma plan_ranges_Inr:
  assumes "plan_ranges file_size = Inr ranges"
  obtains q where "true_divide file_size (choose_threads file_size) = Inr q"
    and "ranges = map (\<lambda>i. (int i * ceil q, min ((int i + 1) * ceil q - 1) (file_size - 1)))
                    [0..<nat (choose_threads file_size)]"
  using assms unfolding plan_ranges_def Let_def by (auto split: sum.splits)

lemma planned_ranges_nonempty:
  assumes "0 < file_size" and "plan_ranges file_size = Inr ranges"
  shows "length ranges = nat (choose_threads file_size)
       \<and> (\<forall>r \<in> set ranges. fst r \<le> snd r)"
proof -
  define n where "n = choose_threads file_size"
  from assms(2) obtain q where q: "true_divide file_size n = Inr q"
    and rs: "ranges = map (\<lambda>i. (int i * ceil q, min ((int i + 1) * ceil q - 1) (file_size - 1)))
                    [0..<nat n]"
    unfolding n_def by (rule plan_ranges_Inr)
  have n: "1 \<le> n" "n \<le> 16" using choose_threads_range [of file_size] by (simp_all add: n_def)
  have prod: "n * (n - 1) < file_size"
    unfolding n_def using choose_threads_product [OF assms(1)] .
  from part_size_bounds [OF assms(1) n prod q]
  have ps: "1 \<le> ceil q" "(n - 1) * ceil q < file_size" by simp_all
  have "int i * ceil q \<le> min ((int i + 1) * ceil q - 1) (file_size - 1)" if "i < nat n" for i
  proof -
    have "int i \<le> n - 1" using that by simp
    then have "int i * ceil q \<le> (n - 1) * ceil q"
      using ps(1) by (intro mult_right_mono) simp_all
    then have a: "int i * ceil q \<le> file_size - 1" using ps(2) by simp
    have "(int i + 1) * ceil q = int i * ceil q + ceil q" by (simp add: algebra_simps)
    then have b: "int i * ceil q \<le> (int i + 1) * ceil q - 1" using ps(1) by simp
    show ?thesis using a b by simp
  qed
  then show ?thesis unfolding rs n_def [symmetric] by auto
qed

section \<open>Every worker that returns leaves its part file\<close>

lemma write_chunks_keeps_files:
  "files w p \<noteq> None \<Longrightarrow> files (snd (write_chunks path chunks d w)) p \<noteq> None"
proof (induction chunks arbitrary: d w)
  case Nil
  then show ?case by simp
next
  case (Cons chunk chunks)
  have "files (advance (int (length chunk)) (write_append path chunk w)) p \<noteq> None"
    using Cons.prems by (simp add: write_append_files)
  then show ?case using Cons by simp
qed

lemma open_append_keeps_files:
  "files w p \<noteq> None \<Longrightarrow> files (open_append path w) p \<noteq> None"
  by (simp add: open_append_files)

lemma download_loop_keeps_files:
  "files w p \<noteq> None \<Longrightarrow>
   files (world_of (download_loop srv filename start end part_num fuel k d w)) p \<noteq> None"
proof (induction fuel arbitrary: k d w)
  case 0
  then show ?case by (simp add: world_of_def)
next
  case (Suc fuel)
  let ?pf = "part_file filename part_num"
  let ?w1 = "send_request part_num (start + d) end w"
  show ?case
  proof (cases "d < end - start + 1")
    case False
    then show ?thesis using Suc.prems by (simp add: world_of_def)
  next
    case True
    show ?thesis
    proof (cases "srv part_num k (start + d, end)")
      case ConnectError
      have "files (sleep_retry d ?w1) p \<noteq> None" using Suc.prems by simp
      from Suc.IH [OF this] show ?thesis using True ConnectError by (simp add: Let_def)
    next
      case HTTPError
      have "files (sleep_retry d ?w1) p \<noteq> None" using Suc.prems by simp
      from Suc.IH [OF this] show ?thesis using True HTTPError by (simp add: Let_def)
    next
      case (Stream chunks finished)
      obtain d2 w2 where wc: "write_chunks ?pf chunks d (open_append ?pf ?w1) = (d2, w2)"
        by (cases "write_chunks ?pf chunks d (open_append ?pf ?w1)") blast
      have "files (open_append ?pf ?w1) p \<noteq> None"
        using Suc.prems by (intro open_append_keeps_files) simp
      then have w2: "files w2 p \<noteq> None"
        using write_chunks_keeps_files [of "open_append ?pf ?w1" p ?pf chunks d] wc by simp
      then have "files (sleep_retry d2 w2) p \<noteq> None" by simp
      from Suc.IH [OF this] w2 show ?thesis
        using True Stream wc by (simp add: Let_def world_of_def)
    qed
  qed
qed

lemma download_loop_creates_part:
  "download_loop srv filename start end part_num fuel k d w = Returned d' w' \<Longrightarrow>
   files w (part_file filename part_num) \<noteq> None \<or> d < end - start + 1 \<Longrightarrow>
   files w' (part_file filename part_num) \<noteq> None"
proof (induction fuel arbitrary: k d w)
  case 0
  then show ?case by (simp split: if_splits)
next
  case (Suc fuel)
  let ?pf = "part_file filename part_num"
  let ?w1 = "send_request part_num (start + d) end w"
  show ?case
  proof (cases "d < end - start + 1")
    case False
    then show ?thesis using Suc.prems by simp
  next
    case True
    show ?thesis
    proof (cases "srv part_num k (start + d, end)")
      case ConnectError
      then have "download_loop srv filename start end part_num fuel (Suc k) d (sleep_retry d ?w1)
          = Returned d' w'"
        using Suc.prems(1) True by (simp add: Let_def)
      from Suc.IH [OF this] show ?thesis using True by simp
    next
      case HTTPError
      then have "download_loop srv filename start end part_num fuel (Suc k) d (sleep_retry d ?w1)
          = Returned d' w'"
        using Suc.prems(1) True by (simp add: Let_def)
      from Suc.IH [OF this] show ?thesis using True by simp
    next
      case (Stream chunks finished)
      obtain d2 w2 where wc: "write_chunks ?pf chunks d (open_append ?pf ?w1) = (d2, w2)"
        by (cases "write_chunks ?pf chunks d (open_append ?pf ?w1)") blast
      have w2: "files w2 ?pf \<noteq> None"
        using write_chunks_after_open [of ?pf chunks d ?w1] wc by simp
      show ?thesis
      proof (cases finished)
        case True
        then have "w' = w2"
          using Suc.prems(1) \<open>d < end - start + 1\<close> Stream wc by (simp add: Let_def)
        then show ?thesis using w2 by simp
      next
        case False
        then have "download_loop srv filename start end part_num fuel (Suc k) d2
            (sleep_retry d2 w2) = Returned d' w'"
          using Suc.prems(1) \<open>d < end - start + 1\<close> Stream wc by (simp add: Let_def)
        from Suc.IH [OF this] show ?thesis using w2 by simp
      qed
    qed
  qed
qed

lemma download_range_creates_part:
  assumes "download_range srv filename start end part_num fuel w = Returned d w'"
    and "start \<le> end"
  shows "files w' (part_file filename part_num) \<noteq> None"
proof -
  let ?pf = "part_file filename part_num"
  have "files w ?pf \<noteq> None \<or> size_on_disk w ?pf < end - start + 1"
    using assms(2) by (cases "files w ?pf") (simp_all add: size_on_disk_def)
  then show ?thesis
    using download_loop_creates_part assms(1) unfolding download_range_def by blast
qed

lemma download_range_keeps_files:
  "files w p \<noteq> None \<Longrightarrow>
   download_range srv filename start end part_num fuel w = Returned d w' \<Longrightarrow>
   files w' p \<noteq> None"
  using download_loop_keeps_files [of w p srv filename start "end" part_num fuel 0
      "size_on_disk w (part_file filename part_num)"]
  by (simp add: download_range_def world_of_def)

lemma run_workers_keeps_files:
  "run_workers srv filename fuel jobs w = Some w' \<Longrightarrow> files w p \<noteq> None \<Longrightarrow> files w' p \<noteq> None"
proof (induction jobs arbitrary: w)
  case Nil
  then show ?case by simp
next
  case (Cons job jobs)
  obtain i start "end" where job: "job = (i, start, end)" by (cases job) auto
  from Cons.prems(1) obtain d w1
    where r: "download_range srv filename start end i fuel w = Returned d w1"
      and rest: "run_workers srv filename fuel jobs w1 = Some w'"
    unfolding job by (auto split: run.splits)
  have "files w1 p \<noteq> None" using download_range_keeps_files [OF Cons.prems(2) r] .
  from Cons.IH [OF rest this] show ?case .
qed

lemma run_workers_creates_parts:
  "run_workers srv filename fuel jobs w = Some w' \<Longrightarrow>
   \<forall>job \<in> set jobs. fst (snd job) \<le> snd (snd job) \<Longrightarrow>
   \<forall>job \<in> set jobs. files w' (part_file filename (fst job)) \<noteq> None"
proof (induction jobs arbitrary: w)
  case Nil
  then show ?case by simp
next
  case (Cons job jobs)
  obtain i start "end" where job: "job = (i, start, end)" by (cases job) auto
  from Cons.prems(1) obtain d w1
    where r: "download_range srv filename start end i fuel w = Returned d w1"
      and rest: "run_workers srv filename fuel jobs w1 = Some w'"
    unfolding job by (auto split: run.splits)
  have "start \<le> end" using Cons.prems(2) job by simp
  then have "files w1 (part_file filename i) \<noteq> None"
    using download_range_creates_part [OF r] by simp
  then have first: "files w' (part_file filename i) \<noteq> None"
    using run_workers_keeps_files [OF rest] by simp
  have "\<forall>job \<in> set jobs. files w' (part_file filename (fst job)) \<noteq> None"
    using Cons.IH [OF rest] Cons.prems(2) by simp
  then show ?case using first job by simp
qed

lemma true_divide_returns:
  assumes "0 < b" and "b \<le> a" and "a < 2 ^ 1023"
  shows "\<exists>q. true_divide a b = Inr q"
proof (cases "float_exponent a b \<le> 52")
  case True
  then show ?thesis using true_divide_small(1) [OF assms(1,2)] by blast
next
  case False
  note eb = float_exponent_bounds [OF assms(1,2)]
  define s where "s = nat (float_exponent a b - 52)"
  define m where "m = round_half_even a (b * 2 ^ s)"
  have z: "nat (52 - float_exponent a b) = 0" using False by simp
  have se: "nat (float_exponent a b) = s + 52" "nat (float_exponent a b + 1) = s + 53"
    unfolding s_def using False by simp_all
  have d: "0 < b * 2 ^ s" using assms(1) by simp
  have "a \<le> b * 2 ^ (s + 53)" using eb unfolding se by simp
  then have "a \<le> 2 ^ 53 * (b * 2 ^ s)" by (simp add: power_add algebra_simps)
  then have m53: "m \<le> 2 ^ 53"
    unfolding m_def using round_half_even_le [OF d] by blast
  have "1 * 2 ^ (s + 52) \<le> b * 2 ^ (s + 52)"
    using assms(1) by (intro mult_right_mono) simp_all
  also have "\<dots> \<le> a" using eb unfolding se by simp
  also have "a < 2 ^ 1023" by fact
  finally have lt: "(2::int) ^ (s + 52) < 2 ^ 1023" by simp
  have "1 < (2::int)" by simp
  from power_less_imp_less_exp [OF this lt] have s: "s + 53 \<le> 1023" by simp
  have "m * 2 ^ s \<le> 2 ^ 53 * 2 ^ s" using m53 by (intro mult_right_mono) simp_all
  also have "\<dots> = (2::int) ^ (s + 53)" by (simp add: power_add)
  also have "\<dots> \<le> 2 ^ 1023" using s by (intro power_increasing) simp_all
  also have "\<dots> < (2::int) ^ 1024" by (intro power_strict_increasing) simp_all
  finally have "\<not> overflow_bound \<le> m * 2 ^ s" by (simp add: overflow_bound_def)
  then show ?thesis
    unfolding true_divide_pos [OF assms(1,2)] z m_def s_def by simp
qed

lemma true_divide_error:
  assumes "0 < b" and "b \<le> a" and "true_divide a b = Inl e"
  shows "e = OverflowError \<and> 2 ^ 1023 \<le> a"
proof -
  have "e = OverflowError"
    using assms(3) unfolding true_divide_pos [OF assms(1,2)] by (simp split: if_splits)
  moreover have "2 ^ 1023 \<le> a"
  proof (rule ccontr)
    assume "\<not> 2 ^ 1023 \<le> a"
    then have "a < 2 ^ 1023" by simp
    from true_divide_returns [OF assms(1,2) this] show False using assms(3) by simp
  qed
  ultimately show ?thesis by simp
qed

lemma choose_threads_le_size:
  assumes "0 < s"
  shows "choose_threads s \<le> s"
proof (cases s rule: choose_threads_cases)
  case small
  then show ?thesis using assms by simp
next
  case medium
  have "choose_threads s \<le> 4"
    unfolding medium(3) using tier2_bounds [of "s div 52428800"] by simp
  then show ?thesis using medium(1) by simp
next
  case large
  have "choose_threads s \<le> 16"
    unfolding large(2) using tier3_bounds [of "s div 104857600"] by simp
  then show ?thesis using large(1) by simp
qed

lemma plan_ranges_error:
  assumes "0 < file_size" and "plan_ranges file_size = Inl e"
  shows "e = OverflowError \<and> 2 ^ 1023 \<le> file_size"
proof -
  have n: "0 < choose_threads file_size" using choose_threads_range [of file_size] by simp
  have "true_divide file_size (choose_threads file_size) = Inl e"
    using assms(2) unfolding plan_ranges_def Let_def by (simp split: sum.splits)
  from true_divide_error [OF n choose_threads_le_size [OF assms(1)] this] show ?thesis .
qed

lemma merge_after_workers:
  assumes "\<forall>i < nat num_threads. files w (part_file filename i) \<noteq> None"
  shows "fst (merge_parts filename num_threads w) = Inr ()"
proof -
  have "\<forall>i < nat num_threads.
      files w (part_file filename i) = Some (the (files w (part_file filename i)))"
    using assms by simp
  from merge_parts_result [OF order_refl this] show ?thesis by simp
qed

lemma workers_then_merge:
  assumes "run_workers srv filename fuel (enumerate 0 ranges) w = Some w'"
    and "\<forall>r \<in> set ranges. fst r \<le> snd r"
  shows "\<forall>i < length ranges. files w' (part_file filename i) \<noteq> None"
proof (intro allI impI)
  fix i assume i: "i < length ranges"
  have jobs: "\<forall>job \<in> set (enumerate 0 ranges). fst (snd job) \<le> snd (snd job)"
  proof
    fix job assume "job \<in> set (enumerate 0 ranges)"
    then have "fst job < length ranges" "ranges ! fst job = snd job"
      by (simp_all add: in_set_enumerate_eq)
    then have "snd job \<in> set ranges" by (metis nth_mem)
    then show "fst (snd job) \<le> snd (snd job)" using assms(2) by blast
  qed
  have "(i, ranges ! i) \<in> set (enumerate 0 ranges)"
    using i by (simp add: in_set_enumerate_eq)
  then show "files w' (part_file filename i) \<noteq> None"
    using run_workers_creates_parts [OF assms(1) jobs] by force
qed

lemma fresh_worker_downloads:
  assumes "download_range srv filename start end part_num fuel w = Returned d w'"
    and "start \<le> end"
    and "files w (part_file filename part_num) = None"
  shows "new_requests w (Returned d w') \<noteq> []
       \<and> files w' (part_file filename part_num) \<noteq> None
       \<and> (honours_range srv \<longrightarrow> d = end - start + 1)"
proof -
  let ?pf = "part_file filename part_num"
  have k: "size_on_disk w ?pf = 0" using assms(3) by (simp add: size_on_disk_def)
  have run: "download_loop srv filename start end part_num fuel 0 0 w = Returned d w'"
    using assms(1) by (simp add: download_range_def k)
  have fuel: "0 < fuel"
  proof (rule ccontr)
    assume "\<not> 0 < fuel"
    then have "fuel = 0" by simp
    then show False using run assms(2) by simp
  qed
  from download_loop_requests [of srv filename start "end" part_num fuel 0 0 w]
  obtain new where new: "requests (world_of (Returned d w')) = requests w @ new" "new \<noteq> []"
    unfolding run using fuel assms(2) by auto
  have a: "new_requests w (Returned d w') \<noteq> []"
    by (simp add: new_requests_def new)
  have b: "files w' ?pf \<noteq> None"
    using download_range_creates_part [OF assms(1,2)] .
  have c: "d = end - start + 1" if "honours_range srv"
    using download_loop_exact [OF run that] assms(2) by simp
  show ?thesis using a b c by blast
qed

lemma coordinator_finds_its_parts:
  assumes "0 < file_size" and "metadata response = Inr file_size"
    and "download_file_rich srv (Inr response) filename fuel w = Some (res, w')"
  shows "res \<noteq> Inl FileNotFoundError"
proof (cases "files w filename \<noteq> None \<and> size_on_disk w filename = file_size")
  case True
  then show ?thesis using assms(2,3) by (auto simp: download_file_rich_def)
next
  case skip: False
  show ?thesis
  proof (cases "plan_ranges file_size")
    case (Inl e)
    then have "e = OverflowError" using plan_ranges_error [OF assms(1)] by simp
    then show ?thesis using assms(2,3) skip Inl by (auto simp: download_file_rich_def)
  next
    case (Inr ranges)
    define n where "n = choose_threads file_size"
    define w1 where "w1 = w\<lparr>progress_state :=
        sum_list (map (\<lambda>i. size_on_disk w (part_file filename i)) [0..<nat n]),
      completed := sum_list (map (\<lambda>i. size_on_disk w (part_file filename i)) [0..<nat n])\<rparr>"
    note pl = planned_ranges_nonempty [OF assms(1) Inr]
    from assms(2,3) skip Inr obtain w2
      where rw: "run_workers srv filename fuel (enumerate 0 ranges) w1 = Some w2"
        and out: "(case merge_parts filename n (w2\<lparr>completed := file_size\<rparr>) of
                    (Inl e, w3) \<Rightarrow> Some (Inl e, w3)
                  | (Inr u, w3) \<Rightarrow> Some (Inr DownloadComplete, w3)) = Some (res, w')"
      unfolding download_file_rich_def w1_def n_def Let_def
      by (auto split: option.splits)
    have "\<forall>i < length ranges. files w2 (part_file filename i) \<noteq> None"
      using workers_then_merge [OF rw] pl by blast
    then have "\<forall>i < nat n. files (w2\<lparr>completed := file_size\<rparr>) (part_file filename i) \<noteq> None"
      using pl by (simp add: n_def)
    from merge_after_workers [OF this]
    have "fst (merge_parts filename n (w2\<lparr>completed := file_size\<rparr>)) = Inr ()" .
    then show ?thesis using out
      by (cases "merge_parts filename n (w2\<lparr>completed := file_size\<rparr>)") auto
  qed
qed

text \<open>
  C10, as amended. A planned part need not download a byte: a worker whose part file is
  already complete sends no request, and a complete response with an empty body ends
  the worker with nothing downloaded. What holds for every positive file size: the part
  count \<open>n\<close> satisfies \<open>n * (n - 1) < file_size\<close>; when the ranges are planned, as they
  are for every size below \<open>2 ^ 1023\<close>, there are exactly \<open>n\<close> of them and every one has
  its start at or below its end; a worker for a planned range that returns leaves its
  part file in place, holding as many bytes as its counter says, after at least one
  request if there was no part file; if the server honours the range and the part file
  started no longer than the range, the part file then holds exactly the bytes of the
  range, at least one. Once all workers have returned, all \<open>n\<close> part files exist and
  the merge returns without an exception, so the coordinator never raises
  \<open>FileNotFoundError\<close> for a positive size.
\<close>

theorem planned_parts_are_nonempty:
  assumes "0 < file_size"
  shows "choose_threads file_size * (choose_threads file_size - 1) < file_size
    \<and> (case plan_ranges file_size of
         Inl e \<Rightarrow> e = OverflowError \<and> 2 ^ 1023 \<le> file_size
       | Inr ranges \<Rightarrow>
           length ranges = nat (choose_threads file_size)
           \<and> (\<forall>r \<in> set ranges. fst r \<le> snd r)
           \<and> (\<forall>i < length ranges. \<forall>w1 d w2.
                 download_range srv filename (fst (ranges ! i)) (snd (ranges ! i)) i fuel w1
                     = Returned d w2 \<longrightarrow>
                 files w2 (part_file filename i) \<noteq> None
                 \<and> size_on_disk w2 (part_file filename i) = d
                 \<and> (files w1 (part_file filename i) = None \<longrightarrow>
                       new_requests w1 (Returned d w2) \<noteq> [])
                 \<and> (honours_range srv
                      \<and> size_on_disk w1 (part_file filename i)
                            \<le> snd (ranges ! i) - fst (ranges ! i) + 1 \<longrightarrow>
                       d = snd (ranges ! i) - fst (ranges ! i) + 1 \<and> 1 \<le> d))
           \<and> (\<forall>w'. run_workers srv filename fuel (enumerate 0 ranges) w = Some w' \<longrightarrow>
                 (\<forall>i < length ranges. files w' (part_file filename i) \<noteq> None)
                 \<and> fst (merge_parts filename (choose_threads file_size) w') = Inr ()))
    \<and> (\<forall>response res w'.
          metadata response = Inr file_size
          \<and> download_file_rich srv (Inr response) filename fuel w = Some (res, w') \<longrightarrow>
          res \<noteq> Inl FileNotFoundError)"
proof -
  have prod: "choose_threads file_size * (choose_threads file_size - 1) < file_size"
    using choose_threads_product [OF assms] .
  have plan: "(case plan_ranges file_size of
         Inl e \<Rightarrow> e = OverflowError \<and> 2 ^ 1023 \<le> file_size
       | Inr ranges \<Rightarrow>
           length ranges = nat (choose_threads file_size)
           \<and> (\<forall>r \<in> set ranges. fst r \<le> snd r)
           \<and> (\<forall>i < length ranges. \<forall>w1 d w2.
                 download_range srv filename (fst (ranges ! i)) (snd (ranges ! i)) i fuel w1
                     = Returned d w2 \<longrightarrow>
                 files w2 (part_file filename i) \<noteq> None
                 \<and> size_on_disk w2 (part_file filename i) = d
                 \<and> (files w1 (part_file filename i) = None \<longrightarrow>
                       new_requests w1 (Returned d w2) \<noteq> [])
                 \<and> (honours_range srv
                      \<and> size_on_disk w1 (part_file filename i)
                            \<le> snd (ranges ! i) - fst (ranges ! i) + 1 \<longrightarrow>
                       d = snd (ranges ! i) - fst (ranges ! i) + 1 \<and> 1 \<le> d))
           \<and> (\<forall>w'. run_workers srv filename fuel (enumerate 0 ranges) w = Some w' \<longrightarrow>
                 (\<forall>i < length ranges. files w' (part_file filename i) \<noteq> None)
                 \<and> fst (merge_parts filename (choose_threads file_size) w') = Inr ()))"
  proof (cases "plan_ranges file_size")
    case (Inl e)
    then show ?thesis using plan_ranges_error [OF assms] by simp
  next
    case (Inr ranges)
    note pl = planned_ranges_nonempty [OF assms Inr]
    have fresh: "files w2 (part_file filename i) \<noteq> None
        \<and> size_on_disk w2 (part_file filename i) = d
        \<and> (files w1 (part_file filename i) = None \<longrightarrow>
              new_requests w1 (Returned d w2) \<noteq> [])
        \<and> (honours_range srv
             \<and> size_on_disk w1 (part_file filename i)
                   \<le> snd (ranges ! i) - fst (ranges ! i) + 1 \<longrightarrow>
              d = snd (ranges ! i) - fst (ranges ! i) + 1 \<and> 1 \<le> d)"
      if "i < length ranges"
        "download_range srv filename (fst (ranges ! i)) (snd (ranges ! i)) i fuel w1
           = Returned d w2"
      for i w1 d w2
    proof -
      have ne: "fst (ranges ! i) \<le> snd (ranges ! i)" using pl that(1) by simp
      have a: "files w2 (part_file filename i) \<noteq> None"
        using download_range_creates_part [OF that(2) ne] .
      have run: "download_loop srv filename (fst (ranges ! i)) (snd (ranges ! i)) i fuel 0
          (size_on_disk w1 (part_file filename i)) w1 = Returned d w2"
        using that(2) by (simp add: download_range_def)
      have b: "size_on_disk w2 (part_file filename i) = d"
        using download_loop_size [OF run refl] by simp
      have c: "new_requests w1 (Returned d w2) \<noteq> []"
        if "files w1 (part_file filename i) = None"
        using fresh_worker_downloads [OF \<open>download_range srv filename (fst (ranges ! i))
          (snd (ranges ! i)) i fuel w1 = Returned d w2\<close> ne that] by simp
      have e: "d = snd (ranges ! i) - fst (ranges ! i) + 1 \<and> 1 \<le> d"
        if "honours_range srv"
          "size_on_disk w1 (part_file filename i) \<le> snd (ranges ! i) - fst (ranges ! i) + 1"
        using download_loop_exact [OF run that] ne by simp
      show ?thesis using a b c e by blast
    qed
    have merged: "(\<forall>i < length ranges. files w' (part_file filename i) \<noteq> None)
        \<and> fst (merge_parts filename (choose_threads file_size) w') = Inr ()"
      if "run_workers srv filename fuel (enumerate 0 ranges) w = Some w'" for w'
    proof -
      have ex: "\<forall>i < length ranges. files w' (part_file filename i) \<noteq> None"
        using workers_then_merge [OF that] pl by blast
      then have "\<forall>i < nat (choose_threads file_size). files w' (part_file filename i) \<noteq> None"
        using pl by simp
      from merge_after_workers [OF this] ex show ?thesis by simp
    qed
    show ?thesis unfolding Inr sum.case using pl fresh merged by blast
  qed
  have coord: "\<forall>response res w'.
          metadata response = Inr file_size
          \<and> download_file_rich srv (Inr response) filename fuel w = Some (res, w') \<longrightarrow>
          res \<noteq> Inl FileNotFoundError"
    using coordinator_finds_its_parts [OF assms] by blast
  show ?thesis using prod plan coord by (intro conjI)
qed

text \<open>
  The counterexample to C10 as stated: for the one planned range of a file of ten bytes,
  a worker that gets a complete response with an empty body returns with nothing
  downloaded and an empty part file; and a worker whose part file is already complete
  returns without sending a request. And at \<open>2 ^ 1028\<close> bytes the division of line 99
  raises \<open>OverflowError\<close>, so that no range is planned at all.
\<close>

theorem planned_part_downloads_nothing_counterexample:
  "plan_ranges 10 = Inr [(0, 9)]
   \<and> (case download_range empty_server ''f'' 0 9 0 1 empty_world of
         Returned downloaded w \<Rightarrow>
           downloaded = 0 \<and> files w (part_file ''f'' 0) = Some [] \<and> progress_state w = 0
       | Retrying downloaded w \<Rightarrow> False)
   \<and> (case download_range exact_server ''f'' 0 9 0 1 complete_part_world of
         Returned downloaded w \<Rightarrow>
           new_requests complete_part_world (Returned downloaded w) = []
           \<and> progress_state w = 0
       | Retrying downloaded w \<Rightarrow> False)
   \<and> plan_ranges (2 ^ 1028) = Inl OverflowError"
  by code_simp

theorem planned_parts_are_nonempty_witness:
  "choose_threads 10 * (choose_threads 10 - 1) < 10
   \<and> plan_ranges 10 = Inr [(0, 9)]
   \<and> (case download_range exact_server ''f'' 0 9 0 1 empty_world of
         Returned downloaded w2 \<Rightarrow>
           downloaded = 10 \<and> size_on_disk w2 (part_file ''f'' 0) = 10
           \<and> new_requests empty_world (Returned downloaded w2) \<noteq> []
       | Retrying downloaded w2 \<Rightarrow> False)
   \<and> (case run_workers exact_server ''f'' 1 (enumerate 0 [(0, 9)]) empty_world of
         None \<Rightarrow> False
       | Some w' \<Rightarrow> files w' (part_file ''f'' 0) \<noteq> None
                    \<and> fst (merge_parts ''f'' (choose_threads 10) w') = Inr ())
   \<and> plan_ranges 125829120 = Inr [(0, 62914559), (62914560, 125829119)]
   \<and> choose_threads 125829120 * (choose_threads 125829120 - 1) < 125829120"
proof -
  have p10: "plan_ranges 10 = Inr [(0, 9)]" by code_simp
  have p120: "plan_ranges 125829120 = Inr [(0, 62914559), (62914560, 125829119)]" by code_simp
  have "case run_workers exact_server ''f'' 1 (enumerate 0 [(0, 9)]) empty_world of
      None \<Rightarrow> False | Some w' \<Rightarrow> True"
    by code_simp
  then obtain w' where
    rw: "run_workers exact_server ''f'' 1 (enumerate 0 [(0, 9)]) empty_world = Some w'"
    by (auto split: option.splits)
  have "case download_range exact_server ''f'' 0 9 0 1 empty_world of
      Returned downloaded w2 \<Rightarrow> True | Retrying downloaded w2 \<Rightarrow> False"
    by code_simp
  then obtain d w2 where
    dr: "download_range exact_server ''f'' 0 9 0 1 empty_world = Returned d w2"
    by (auto split: run.splits)
  have absent: "files empty_world (part_file ''f'' 0) = None"
    by (simp add: empty_world_def)
  have small: "size_on_disk empty_world (part_file ''f'' 0) \<le> 9 - 0 + 1"
    by (simp add: size_on_disk_def empty_world_def)
  have h10: "(0::int) < 10" and h120: "(0::int) < 125829120" by simp_all
  note t10 = planned_parts_are_nonempty [OF h10, where filename = "''f''" and srv = exact_server
      and fuel = 1 and w = empty_world]
  note t120 = planned_parts_are_nonempty [OF h120, where filename = "''f''" and srv = exact_server
      and fuel = 1 and w = empty_world]
  have a: "choose_threads 10 * (choose_threads 10 - 1) < 10" using t10 by blast
  have b: "choose_threads 125829120 * (choose_threads 125829120 - 1) < 125829120"
    using t120 by blast
  let ?rs = "[(0::int, 9::int)]"
  have worker: "\<forall>i < length ?rs. \<forall>w1 d w2.
      download_range exact_server ''f'' (fst (?rs ! i)) (snd (?rs ! i)) i 1 w1
          = Returned d w2 \<longrightarrow>
      files w2 (part_file ''f'' i) \<noteq> None
      \<and> size_on_disk w2 (part_file ''f'' i) = d
      \<and> (files w1 (part_file ''f'' i) = None \<longrightarrow> new_requests w1 (Returned d w2) \<noteq> [])
      \<and> (honours_range exact_server
           \<and> size_on_disk w1 (part_file ''f'' i) \<le> snd (?rs ! i) - fst (?rs ! i) + 1 \<longrightarrow>
            d = snd (?rs ! i) - fst (?rs ! i) + 1 \<and> 1 \<le> d)"
    using t10 unfolding p10 sum.case by blast
  have "size_on_disk w2 (part_file ''f'' 0) = d
      \<and> new_requests empty_world (Returned d w2) \<noteq> []
      \<and> d = 9 - 0 + 1"
    using worker [rule_format, of 0 empty_world d w2] dr absent small honours_range_exact_server
    by auto
  then have c0: "d = 10 \<and> size_on_disk w2 (part_file ''f'' 0) = 10
      \<and> new_requests empty_world (Returned d w2) \<noteq> []"
    by auto
  have c: "case download_range exact_server ''f'' 0 9 0 1 empty_world of
         Returned downloaded w2 \<Rightarrow>
           downloaded = 10 \<and> size_on_disk w2 (part_file ''f'' 0) = 10
           \<and> new_requests empty_world (Returned downloaded w2) \<noteq> []
       | Retrying downloaded w2 \<Rightarrow> False"
    unfolding dr run.case using c0 .
  have "(\<forall>i < length [(0::int, 9::int)]. files w' (part_file ''f'' i) \<noteq> None)
      \<and> fst (merge_parts ''f'' (choose_threads 10) w') = Inr ()"
    using t10 rw unfolding p10 sum.case by blast
  then have m: "files w' (part_file ''f'' 0) \<noteq> None
      \<and> fst (merge_parts ''f'' (choose_threads 10) w') = Inr ()"
    by simp
  have d: "case run_workers exact_server ''f'' 1 (enumerate 0 [(0, 9)]) empty_world of
         None \<Rightarrow> False
       | Some w' \<Rightarrow> files w' (part_file ''f'' 0) \<noteq> None
                    \<and> fst (merge_parts ''f'' (choose_threads 10) w') = Inr ()"
    unfolding rw option.case using m .
  show ?thesis using a b c d p10 p120 by (intro conjI)
qed

section \<open>The planned ranges as a partition\<close>

lemma planned_ranges_contiguous:
  assumes "0 < file_size" and "plan_ranges file_size = Inr ranges"
  shows "fst (ranges ! 0) = 0
       \<and> (\<forall>i. Suc i < length ranges \<longrightarrow> fst (ranges ! Suc i) = snd (ranges ! i) + 1)"
proof -
  define n where "n = choose_threads file_size"
  from assms(2) obtain q where q: "true_divide file_size n = Inr q"
    and rs: "ranges = map (\<lambda>i. (int i * ceil q, min ((int i + 1) * ceil q - 1) (file_size - 1)))
                    [0..<nat n]"
    unfolding n_def by (rule plan_ranges_Inr)
  have n: "1 \<le> n" "n \<le> 16" using choose_threads_range [of file_size] by (simp_all add: n_def)
  have prod: "n * (n - 1) < file_size"
    unfolding n_def using choose_threads_product [OF assms(1)] .
  from part_size_bounds [OF assms(1) n prod q]
  have ps: "1 \<le> ceil q" "(n - 1) * ceil q < file_size" by simp_all
  have len: "length ranges = nat n" by (simp add: rs)
  have first: "fst (ranges ! 0) = 0" using n by (simp add: rs)
  have "fst (ranges ! Suc i) = snd (ranges ! i) + 1" if "Suc i < length ranges" for i
  proof -
    have i: "Suc i < nat n" "i < nat n" using that len by simp_all
    have "int i + 1 \<le> n - 1" using i by simp
    then have "(int i + 1) * ceil q \<le> (n - 1) * ceil q"
      using ps(1) by (intro mult_right_mono) simp_all
    then have "(int i + 1) * ceil q - 1 \<le> file_size - 1" using ps(2) by simp
    then have "snd (ranges ! i) = (int i + 1) * ceil q - 1" using i by (simp add: rs)
    moreover have "fst (ranges ! Suc i) = (int i + 1) * ceil q"
      using i by (simp add: rs algebra_simps)
    ultimately show ?thesis by simp
  qed
  then show ?thesis using first by blast
qed

text \<open>
  Below \<open>2 ^ 53\<close> bytes the double division loses nothing: the part size is the exact
  ceiling of the quotient, and the last range ends at the last byte of the file.
\<close>

lemma planned_ranges_cover_below_2_53:
  assumes "0 < file_size" and "file_size < 2 ^ 53"
  shows "\<exists>ranges. plan_ranges file_size = Inr ranges \<and> ranges \<noteq> []
           \<and> snd (last ranges) = file_size - 1"
proof -
  define n where "n = choose_threads file_size"
  have n: "1 \<le> n" "n \<le> 16" using choose_threads_range [of file_size] by (simp_all add: n_def)
  have n0: "0 < n" using n by simp
  have nle: "n \<le> file_size" unfolding n_def using choose_threads_le_size [OF assms(1)] .
  from below_2_53_exact [OF n0 nle assms(2)]
  obtain q where q: "true_divide file_size n = Inr q" and c: "ceil q = ceil_div file_size n"
    by blast
  define ranges where
    "ranges = map (\<lambda>i. (int i * ceil q, min ((int i + 1) * ceil q - 1) (file_size - 1)))
                    [0..<nat n]"
  have plan: "plan_ranges file_size = Inr ranges"
    unfolding plan_ranges_def Let_def n_def [symmetric] q ranges_def by simp
  have ne: "ranges \<noteq> []" using n by (simp add: ranges_def)
  obtain k where k: "nat n = Suc k" using n by (cases "nat n") auto
  have "last ranges = (int k * ceil q, min ((int k + 1) * ceil q - 1) (file_size - 1))"
    unfolding ranges_def k by (simp add: last_map)
  then have l: "snd (last ranges) = min ((int k + 1) * ceil q - 1) (file_size - 1)" by simp
  have "int k + 1 = n" using k n by simp
  moreover have "file_size \<le> ceil_div file_size n * n"
    using ceil_div_bounds [OF n0, of file_size] by (simp add: ceil_div_def)
  ultimately have "file_size \<le> (int k + 1) * ceil q" by (simp add: c mult.commute)
  then have "snd (last ranges) = file_size - 1" using l by simp
  then show ?thesis using plan ne by blast
qed

lemma planned_ranges_partition_below_2_53:
  assumes "0 < file_size" and "file_size < 2 ^ 53"
  shows "\<exists>ranges. plan_ranges file_size = Inr ranges
           \<and> length ranges = nat (choose_threads file_size)
           \<and> fst (ranges ! 0) = 0
           \<and> (\<forall>i. Suc i < length ranges \<longrightarrow> fst (ranges ! Suc i) = snd (ranges ! i) + 1)
           \<and> (\<forall>r \<in> set ranges. fst r \<le> snd r)
           \<and> snd (last ranges) = file_size - 1"
proof -
  from planned_ranges_cover_below_2_53 [OF assms]
  obtain ranges where r: "plan_ranges file_size = Inr ranges"
    "snd (last ranges) = file_size - 1" by blast
  show ?thesis
    using r planned_ranges_contiguous [OF assms(1) r(1)] planned_ranges_nonempty [OF assms(1) r(1)]
    by blast
qed

text \<open>
  C2. Below \<open>2 ^ 53\<close> bytes the plan is the claimed partition (the lemma above). At \<open>2 ^ 53 + 1\<close> bytes the part count is 16 and the exact quotient ends in one
  sixteenth, which the nearest double drops: the part size is \<open>2 ^ 49\<close>, one too small, the
  sixteen ranges end at byte \<open>2 ^ 53 - 1\<close>, and the last byte of the file, at offset
  \<open>2 ^ 53\<close>, is in no range.
\<close>

theorem plan_ranges_misses_last_byte:
  "choose_threads 9007199254740993 = 16
   \<and> map_sum id ceil (true_divide 9007199254740993 16) = Inr 562949953421312
   \<and> ceil_div 9007199254740993 16 = 562949953421313
   \<and> (case plan_ranges 9007199254740993 of
         Inl e \<Rightarrow> False
       | Inr ranges \<Rightarrow>
           length ranges = 16
           \<and> last ranges = (8444249301319680, 9007199254740991)
           \<and> filter (\<lambda>r. fst r \<le> 9007199254740992 \<and> 9007199254740992 \<le> snd r) ranges = [])"
  by code_simp

end
